theory Spec2Isabelle
  imports Main "HOL-Library.Word"
begin

unbundle bit_operations_syntax

section \<open>Addresses and prefixes of net/netip\<close>

text \<open>
  Modelled from the spec: the type \<open>netip.Prefix\<close>, its constructor, \<open>Masked\<close>,
  \<open>Overlaps\<close> and \<open>Contains\<close> are not under src/ (they come from Go's standard
  library package net/netip, which conf/allowedips_exclude.go imports). The definitions below
  follow section 3 of the spec (family, address, length, canonical form, the two predicates)
  and the documented behaviour of the library functions of the same names, including what
  they do on the invalid prefix. An address is the zero \<open>Addr\<close>, a 32-bit value or a 128-bit
  value; zones are left out, since \<open>PrefixFrom\<close> strips them. A prefix whose \<open>Bits\<close> is
  \<open>-1\<close> is the invalid prefix.
\<close>

datatype addr = AddrZero | Addr4 "32 word" | Addr6 "128 word"

datatype prefix = Prefix (Addr: addr) (Bits: int)

fun Is4 :: "addr \<Rightarrow> bool" where
  "Is4 (Addr4 v) = True"
| "Is4 _ = False"

fun BitLen :: "addr \<Rightarrow> int" where
  "BitLen AddrZero = 0"
| "BitLen (Addr4 v) = 32"
| "BitLen (Addr6 v) = 128"

definition zeroPrefix :: prefix where
  "zeroPrefix = Prefix AddrZero (- 1)"

definition IsValid :: "prefix \<Rightarrow> bool" where
  "IsValid p \<longleftrightarrow> Addr p \<noteq> AddrZero \<and> 0 \<le> Bits p \<and> Bits p \<le> BitLen (Addr p)"

definition PrefixFrom :: "addr \<Rightarrow> int \<Rightarrow> prefix" where
  "PrefixFrom ip bits =
     (if ip \<noteq> AddrZero \<and> 0 \<le> bits \<and> bits \<le> BitLen ip then Prefix ip bits
      else Prefix ip (- 1))"

text \<open>
  \<open>Addr.Prefix(b)\<close>: keep the top \<open>b\<close> bits of the address. \<open>None\<close> is the library's
  error return (negative or too large \<open>b\<close>); the zero address gives the zero prefix
  without an error.
\<close>

fun AddrPrefix :: "addr \<Rightarrow> int \<Rightarrow> prefix option" where
  "AddrPrefix ip b =
     (if b < 0 then None
      else case ip of
        AddrZero \<Rightarrow> Some zeroPrefix
      | Addr4 v \<Rightarrow>
          if b > 32 then None
          else Some (PrefixFrom (Addr4 (v AND NOT (mask (nat (32 - b))))) b)
      | Addr6 v \<Rightarrow>
          if b > 128 then None
          else Some (PrefixFrom (Addr6 (v AND NOT (mask (nat (128 - b))))) b))"

definition Masked :: "prefix \<Rightarrow> prefix" where
  "Masked p = (case AddrPrefix (Addr p) (Bits p) of None \<Rightarrow> zeroPrefix | Some m \<Rightarrow> m)"

definition Contains :: "prefix \<Rightarrow> addr \<Rightarrow> bool" where
  "Contains p ip =
     (if \<not> IsValid p then False
      else if BitLen (Addr p) = 0 \<or> BitLen ip = 0 \<or> BitLen (Addr p) \<noteq> BitLen ip then False
      else case (ip, Addr p) of
        (Addr4 a, Addr4 v) \<Rightarrow> drop_bit (nat (32 - Bits p)) (a XOR v) = 0
      | (Addr6 a, Addr6 v) \<Rightarrow> (a XOR v) AND NOT (mask (nat (128 - Bits p))) = 0
      | _ \<Rightarrow> False)"

definition Overlaps :: "prefix \<Rightarrow> prefix \<Rightarrow> bool" where
  "Overlaps p o' =
     (if \<not> IsValid p \<or> \<not> IsValid o' then False
      else if p = o' then True
      else if Is4 (Addr p) \<noteq> Is4 (Addr o') then False
      else let minBits = (if Bits p < Bits o' then Bits p else Bits o') in
        if minBits = 0 then True
        else case AddrPrefix (Addr p) minBits of
          None \<Rightarrow> False
        | Some p' \<Rightarrow>
            (case AddrPrefix (Addr o') minBits of
               None \<Rightarrow> False
             | Some o'' \<Rightarrow> Addr p' = Addr o''))"

section \<open>Big-endian byte arrays\<close>

text \<open>
  \<open>As4\<close>/\<open>As16\<close> give the bytes of an address, most significant first;
  \<open>binary.BigEndian.Uint32\<close>, \<open>PutUint32\<close>, \<open>AddrFrom4\<close> and \<open>AddrFrom16\<close> convert
  between such arrays and values.
\<close>

definition be_bytes :: "nat \<Rightarrow> 'a::len word \<Rightarrow> 8 word list" where
  "be_bytes n w = map (\<lambda>i. ucast (drop_bit (8 * (n - 1 - i)) w)) [0..<n]"

definition be_word :: "8 word list \<Rightarrow> 'a::len word" where
  "be_word bs = foldl (\<lambda>acc b. push_bit 8 acc OR ucast b) 0 bs"

definition Uint32 :: "8 word list \<Rightarrow> 32 word" where
  "Uint32 b = be_word b"

definition PutUint32 :: "32 word \<Rightarrow> 8 word list" where
  "PutUint32 v = be_bytes 4 v"

definition AddrFrom4 :: "8 word list \<Rightarrow> addr" where
  "AddrFrom4 b = Addr4 (be_word b)"

definition AddrFrom16 :: "8 word list \<Rightarrow> addr" where
  "AddrFrom16 b = Addr6 (be_word b)"

text \<open>
  \<open>As4\<close> gives the four bytes of a 32-bit address and of a 128-bit address of the form
  \<open>::ffff:a.b.c.d\<close>; on any other address it panics: \<open>None\<close>.
\<close>

fun As4 :: "addr \<Rightarrow> 8 word list option" where
  "As4 (Addr4 v) = Some (be_bytes 4 v)"
| "As4 (Addr6 v) = (if drop_bit 32 v = 0xFFFF then Some (be_bytes 4 v) else None)"
| "As4 AddrZero = None"

text \<open>\<open>As16\<close> maps a 32-bit address into \<open>::ffff:a.b.c.d\<close> and the zero address to zeroes.\<close>

fun As16 :: "addr \<Rightarrow> 8 word list" where
  "As16 (Addr6 v) = be_bytes 16 v"
| "As16 (Addr4 v) = replicate 10 0 @ [255, 255] @ be_bytes 4 v"
| "As16 AddrZero = replicate 16 0"

section \<open>conf/allowedips\_exclude.go: the subtraction engine\<close>

text \<open>Go's integer division and remainder truncate towards zero.\<close>

definition go_quot :: "int \<Rightarrow> int \<Rightarrow> int" where
  "go_quot a b = sgn a * sgn b * (\<bar>a\<bar> div \<bar>b\<bar>)"

definition go_rem :: "int \<Rightarrow> int \<Rightarrow> int" where
  "go_rem a b = a - b * go_quot a b"

definition maxPrefixBits :: "prefix \<Rightarrow> int" where
  "maxPrefixBits p = (if Is4 (Addr p) then 32 else 128)"

text \<open>
  \<open>setBit128\<close> writes into a 16-byte array. An index outside the array is a run-time panic
  in Go, as is a negative shift count: \<open>None\<close>. A byte shifted by 8 or more is 0.
\<close>

definition setBit128 :: "8 word list \<Rightarrow> int \<Rightarrow> 8 word list option" where
  "setBit128 addr bit' =
     (let byteIndex = go_quot bit' 8;
          bitIndex = 7 - go_rem bit' 8
      in if bitIndex < 0 then None
         else if byteIndex < 0 \<or> int (length addr) \<le> byteIndex then None
         else Some (addr[nat byteIndex := (addr ! nat byteIndex) OR push_bit (nat bitIndex) 1]))"

text \<open>
  \<open>splitPrefix\<close>: the shift count \<open>31 - uint32(bits)\<close> is computed in 32-bit unsigned
  arithmetic (it wraps), and a 32-bit value shifted by 32 or more is 0.
\<close>

definition splitPrefix :: "prefix \<Rightarrow> (prefix \<times> prefix) option" where
  "splitPrefix p =
     (let bits = Bits p in
      if Is4 (Addr p) then
        (case As4 (Addr p) of
           None \<Rightarrow> None
         | Some addr \<Rightarrow>
             let v = Uint32 addr;
                 bit' = push_bit (unat (31 - (word_of_int bits :: 32 word))) (1 :: 32 word);
                 right = v OR bit';
                 rightAddr = PutUint32 right
             in Some (PrefixFrom (Addr p) (bits + 1), PrefixFrom (AddrFrom4 rightAddr) (bits + 1)))
      else
        (case setBit128 (As16 (Addr p)) bits of
           None \<Rightarrow> None
         | Some addr \<Rightarrow>
             Some (PrefixFrom (Addr p) (bits + 1), PrefixFrom (AddrFrom16 addr) (bits + 1))))"

text \<open>
  \<open>subtractPrefix\<close> returns \<open>None\<close> when a panic of \<open>splitPrefix\<close> would propagate.
\<close>

function subtractPrefix :: "prefix \<Rightarrow> prefix \<Rightarrow> prefix list option" where
  "subtractPrefix base0 remove0 =
     (let base = Masked base0;
          remove = Masked remove0
      in if \<not> Overlaps base remove then Some [base]
         else if Contains remove (Addr base) \<and> Bits remove \<le> Bits base then Some []
         else if Bits base \<ge> maxPrefixBits base then Some [base]
         else case splitPrefix base of
           None \<Rightarrow> None
         | Some (left, right) \<Rightarrow>
             if Overlaps remove left then
               (case subtractPrefix left remove of
                  None \<Rightarrow> None
                | Some fs \<Rightarrow> Some (fs @ [right]))
             else
               (case subtractPrefix right remove of
                  None \<Rightarrow> None
                | Some fs \<Rightarrow> Some ([left] @ fs)))"
  by pat_completeness auto

text \<open>
  The same body with a budget of calls, for counting them: \<open>subtractPrefixFuel n\<close> is
  \<open>None\<close> when more than \<open>n\<close> calls of \<open>subtractPrefix\<close> (the first one included) would
  be needed, and otherwise \<open>Some\<close> of what \<open>subtractPrefix\<close> returns.
\<close>

fun subtractPrefixFuel :: "nat \<Rightarrow> prefix \<Rightarrow> prefix \<Rightarrow> prefix list option option" where
  "subtractPrefixFuel 0 base0 remove0 = None"
| "subtractPrefixFuel (Suc n) base0 remove0 =
     (let base = Masked base0;
          remove = Masked remove0
      in if \<not> Overlaps base remove then Some (Some [base])
         else if Contains remove (Addr base) \<and> Bits remove \<le> Bits base then Some (Some [])
         else if Bits base \<ge> maxPrefixBits base then Some (Some [base])
         else case splitPrefix base of
           None \<Rightarrow> Some None
         | Some (left, right) \<Rightarrow>
             if Overlaps remove left then
               (case subtractPrefixFuel n left remove of
                  None \<Rightarrow> None
                | Some None \<Rightarrow> Some None
                | Some (Some fs) \<Rightarrow> Some (Some (fs @ [right])))
             else
               (case subtractPrefixFuel n right remove of
                  None \<Rightarrow> None
                | Some None \<Rightarrow> Some None
                | Some (Some fs) \<Rightarrow> Some (Some ([left] @ fs))))"

text \<open>
  \<open>subtractPrefixList\<close>, innermost loop first: \<open>subtractFragments\<close> is the loop over
  \<open>fragments\<close> for one \<open>r\<close> (lines 102-105), \<open>subtractRemoves\<close> the loop over \<open>remove\<close>
  for one \<open>b\<close> (lines 98-107), \<open>subtractPrefixList\<close> the loop over \<open>base\<close>.
\<close>

fun subtractFragments :: "prefix list \<Rightarrow> prefix \<Rightarrow> prefix list option" where
  "subtractFragments [] r = Some []"
| "subtractFragments (f # fragments) r =
     (case subtractPrefix f (Masked r) of
        None \<Rightarrow> None
      | Some fs \<Rightarrow>
          (case subtractFragments fragments r of
             None \<Rightarrow> None
           | Some newFragments \<Rightarrow> Some (fs @ newFragments)))"

fun subtractRemoves :: "prefix \<Rightarrow> prefix list \<Rightarrow> prefix list \<Rightarrow> prefix list option" where
  "subtractRemoves b fragments [] = Some fragments"
| "subtractRemoves b fragments (r # remove) =
     (if Is4 (Addr b) \<noteq> Is4 (Addr r) then subtractRemoves b fragments remove
      else case subtractFragments fragments r of
        None \<Rightarrow> None
      | Some newFragments \<Rightarrow> subtractRemoves b newFragments remove)"

fun subtractPrefixList :: "prefix list \<Rightarrow> prefix list \<Rightarrow> prefix list option" where
  "subtractPrefixList [] remove = Some []"
| "subtractPrefixList (b # base) remove =
     (case subtractRemoves b [Masked b] remove of
        None \<Rightarrow> None
      | Some fragments \<Rightarrow>
          (case subtractPrefixList base remove of
             None \<Rightarrow> None
           | Some out \<Rightarrow> Some (fragments @ out)))"

section \<open>conf/allowedips\_exclude.go: parsing the exclusions and rewriting the peers\<close>

















section \<open>Notions used by the properties\<close>

text \<open>
  A prefix is canonical when it is valid and all address bits beyond its length are zero.
\<close>

definition canonical :: "prefix \<Rightarrow> bool" where
  "canonical p \<longleftrightarrow> IsValid p \<and>
     (case Addr p of
        AddrZero \<Rightarrow> False
      | Addr4 v \<Rightarrow> take_bit (nat (32 - Bits p)) v = 0
      | Addr6 v \<Rightarrow> take_bit (nat (128 - Bits p)) v = 0)"

text \<open>The order of addresses within one family.\<close>

fun addrLess :: "addr \<Rightarrow> addr \<Rightarrow> bool" where
  "addrLess (Addr4 x) (Addr4 y) = (x < y)"
| "addrLess (Addr6 x) (Addr6 y) = (x < y)"
| "addrLess _ _ = False"

text \<open>
  A list of prefixes is in address order when every address of an earlier prefix is below
  every address of a later one.
\<close>

definition addressOrder :: "prefix list \<Rightarrow> bool" where
  "addressOrder fs \<longleftrightarrow>
     sorted_wrt (\<lambda>p q. \<forall>a b. Contains p a \<longrightarrow> Contains q b \<longrightarrow> addrLess a b) fs"

text \<open>Bit \<open>i\<close> of an address, counted from the least significant one.\<close>

fun abit :: "addr \<Rightarrow> nat \<Rightarrow> bool" where
  "abit AddrZero i = False"
| "abit (Addr4 v) i = bit v i"
| "abit (Addr6 v) i = bit v i"

text \<open>The number of address bits a prefix leaves free, and agreement of two addresses above a position.\<close>

definition low :: "prefix \<Rightarrow> nat" where
  "low p = nat (BitLen (Addr p) - Bits p)"

definition agree :: "nat \<Rightarrow> addr \<Rightarrow> addr \<Rightarrow> bool" where
  "agree k a b \<longleftrightarrow> (\<forall>i\<ge>k. abit a i = abit b i)"

text \<open>
  What the fragments of \<open>base\<close> minus \<open>remove\<close> have to satisfy: each is canonical, of
  the family of \<open>base\<close> and at least as long; together they cover the addresses of
  \<open>base\<close> outside \<open>remove\<close>; and they are in address order.
\<close>

definition fragmentsOK :: "prefix \<Rightarrow> prefix \<Rightarrow> prefix list \<Rightarrow> bool" where
  "fragmentsOK base remove fs \<longleftrightarrow>
     (\<forall>f\<in>set fs. canonical f \<and> BitLen (Addr f) = BitLen (Addr base) \<and> Bits base \<le> Bits f) \<and>
     (\<forall>a. (\<exists>f\<in>set fs. Contains f a) \<longleftrightarrow> Contains base a \<and> \<not> Contains remove a) \<and>
     addressOrder fs"

text \<open>
  Invariants of the loops of \<open>subtractPrefixList\<close>. A fragment \<open>f\<close> of the base \<open>b\<close>
  is settled with respect to the exclusions already applied when it is masked, valid exactly
  when \<open>b\<close> is, of the family of \<open>b\<close>, and overlaps none of those exclusions that
  match the family of \<open>b\<close>. A prefix is stable under a list of exclusions when it is masked
  and overlaps none of the exclusions of its own family.
\<close>

definition settled :: "prefix \<Rightarrow> prefix list \<Rightarrow> prefix \<Rightarrow> bool" where
  "settled b done f \<longleftrightarrow>
     Masked f = f \<and> (IsValid f \<longleftrightarrow> IsValid b) \<and>
     (IsValid f \<longrightarrow> Is4 (Addr f) = Is4 (Addr b)) \<and>
     (\<forall>r\<in>set done. Is4 (Addr b) = Is4 (Addr r) \<longrightarrow> \<not> Overlaps f (Masked r))"

definition stable :: "prefix \<Rightarrow> prefix list \<Rightarrow> bool" where
  "stable f removes \<longleftrightarrow>
     Masked f = f \<and> (\<forall>r\<in>set removes. Is4 (Addr f) = Is4 (Addr r) \<longrightarrow> \<not> Overlaps f (Masked r))"


section \<open>Words and byte arrays\<close>

lemma word_high_eq_iff:
  fixes x y :: "'a::len word"
  shows "(x AND NOT (mask k) = y AND NOT (mask k)) \<longleftrightarrow> (\<forall>i\<ge>k. bit x i = bit y i)"
  by (auto simp add: bit_eq_iff bit_simps dest: bit_imp_le_length) 

lemma word_drop_xor_iff:
  fixes x y :: "'a::len word"
  shows "drop_bit k (x XOR y) = 0 \<longleftrightarrow> (\<forall>i\<ge>k. bit x i = bit y i)"
proof
  assume h: "drop_bit k (x XOR y) = 0"
  show "\<forall>i\<ge>k. bit x i = bit y i"
  proof (intro allI impI)
    fix i assume "k \<le> i"
    have "bit (drop_bit k (x XOR y)) (i - k) = False" using h by simp
    then show "bit x i = bit y i" using \<open>k \<le> i\<close> by (auto simp: bit_simps)
  qed
next
  assume "\<forall>i\<ge>k. bit x i = bit y i"
  then show "drop_bit k (x XOR y) = 0"
    by (auto simp add: bit_eq_iff bit_simps)
qed

lemma word_xor_mask_iff:
  fixes x y :: "'a::len word"
  shows "(x XOR y) AND NOT (mask k) = 0 \<longleftrightarrow> (\<forall>i\<ge>k. bit x i = bit y i)"
  by (auto simp add: bit_eq_iff bit_simps dest: bit_imp_le_length) 

lemma bit_be_word:
  "bit (be_word bs :: 'a::len word) n \<longleftrightarrow>
     n < LENGTH('a) \<and> n div 8 < length bs \<and> bit (bs ! (length bs - 1 - n div 8)) (n mod 8)"
proof (induction bs arbitrary: n rule: rev_induct)
  case Nil
  then show ?case by (simp add: be_word_def)
next
  case (snoc b bs)
  have e: "be_word (bs @ [b]) = (push_bit 8 (be_word bs :: 'a word) OR ucast b)"
    by (simp add: be_word_def)
  show ?case
  proof (cases "n < 8")
    case True
    then show ?thesis 
      by (auto simp add: e bit_simps dest: bit_imp_le_length)
  next
    case False
    then have "n div 8 = Suc ((n - 8) div 8)" "n mod 8 = (n - 8) mod 8"
      by (simp_all add: le_div_geq le_mod_geq)
    then show ?thesis using False
      by (auto simp add: e bit_simps snoc.IH nth_append less_imp_diff_less dest: bit_imp_le_length)
  qed
qed

lemma length_be_bytes [simp]: "length (be_bytes n w) = n"
  by (simp add: be_bytes_def)

lemma bit_be_bytes_nth:
  "i < n \<Longrightarrow> bit (be_bytes n (w :: 'a::len word) ! i) j \<longleftrightarrow> j < 8 \<and> bit w (8 * (n - 1 - i) + j)"
  by (auto simp add: be_bytes_def bit_simps dest: bit_imp_le_length)

lemma be_word_be_bytes:
  "8 * n = LENGTH('a::len) \<Longrightarrow> be_word (be_bytes n (w :: 'a word)) = w"
  by (rule bit_eqI) (auto simp add: bit_be_word bit_be_bytes_nth)

lemma be_word_set_bit:
  fixes w :: "'a::len word"
  assumes len: "8 * n = LENGTH('a)" and i: "i < n" and k: "k < 8"
  shows "be_word ((be_bytes n w)[i := (be_bytes n w ! i) OR push_bit k 1]) = w OR push_bit (8 * (n - 1 - i) + k) 1"
proof (rule bit_word_eqI)
  fix m assume m: "m < LENGTH('a)"
  define q r where "q = m div 8" and "r = m mod 8"
  have mqr: "m = 8 * q + r" and r: "r < 8" and q: "q < n"
    using m len by (auto simp: q_def r_def)
  let ?bs = "(be_bytes n w)[i := (be_bytes n w ! i) OR push_bit k 1]"
  have L: "bit (be_word ?bs :: 'a word) m \<longleftrightarrow> bit (?bs ! (n - 1 - q)) r"
    using m q by (simp add: bit_be_word q_def r_def)
  show "bit (be_word ?bs :: 'a word) m = bit (w OR push_bit (8 * (n - 1 - i) + k) 1) m"
  proof (cases "n - 1 - q = i")
    case True
    then have qi: "q = n - 1 - i" using q i by arith
    have "bit (?bs ! (n - 1 - q)) r \<longleftrightarrow> bit w (8 * q + r) \<or> r = k"
      using True i r k qi by (auto simp add: bit_simps bit_be_bytes_nth)
    moreover have "bit (w OR push_bit (8 * (n - 1 - i) + k) 1) m \<longleftrightarrow> bit w m \<or> r = k"
      using m mqr qi r k by (auto simp add: bit_simps)
    ultimately show ?thesis using L mqr by simp
  next
    case False
    have lt: "n - 1 - q < n" using q by arith
    have "bit (?bs ! (n - 1 - q)) r \<longleftrightarrow> bit w (8 * q + r)"
      using False lt r q by (auto simp add: bit_be_bytes_nth)
    moreover have "m \<noteq> 8 * (n - 1 - i) + k"
      using False mqr r k q i by arith
    then have "bit (w OR push_bit (8 * (n - 1 - i) + k) 1) m \<longleftrightarrow> bit w m"
      by (auto simp add: bit_simps)
    ultimately show ?thesis using L mqr by simp
  qed
qed

section \<open>Prefixes bit by bit\<close>

lemma bit32_len: "bit (v :: 32 word) i \<Longrightarrow> i < 32"
  by (auto dest: bit_imp_le_length)

lemma bit128_len: "bit (v :: 128 word) i \<Longrightarrow> i < 128"
  by (auto dest: bit_imp_le_length)

lemma abit_len: "abit a i \<Longrightarrow> int i < BitLen a"
  by (cases a) (auto dest: bit_imp_le_length)

lemma addr_eqI: "BitLen a = BitLen b \<Longrightarrow> (\<And>i. abit a i = abit b i) \<Longrightarrow> a = b"
  by (cases a; cases b) (auto intro: bit_word_eqI)

lemma agree_mono: "agree k a b \<Longrightarrow> k \<le> k' \<Longrightarrow> agree k' a b"
  by (auto simp: agree_def)

lemma agree_len: "BitLen a = BitLen b \<Longrightarrow> int k \<ge> BitLen a \<Longrightarrow> agree k a b"
  unfolding agree_def using abit_len by (metis nat_int nat_le_iff not_le order.trans of_nat_less_iff linorder_not_less)

lemma IsValid_cases:
  "IsValid p \<longleftrightarrow> (\<exists>v b. p = Prefix (Addr4 v) b \<and> 0 \<le> b \<and> b \<le> 32) \<or>
                 (\<exists>v b. p = Prefix (Addr6 v) b \<and> 0 \<le> b \<and> b \<le> 128)"
  by (cases p; cases "Addr p") (auto simp: IsValid_def)

lemma Masked_invalid: "\<not> IsValid p \<Longrightarrow> Masked p = zeroPrefix"
  by (cases p; cases "Addr p") (auto simp: IsValid_def Masked_def PrefixFrom_def zeroPrefix_def)

lemma zeroPrefix_invalid [simp]: "\<not> IsValid zeroPrefix"
  by (simp add: IsValid_def zeroPrefix_def)

lemma Masked_valid:
  assumes "IsValid p"
  shows "IsValid (Masked p)" "Bits (Masked p) = Bits p" "BitLen (Addr (Masked p)) = BitLen (Addr p)"
    "Is4 (Addr (Masked p)) = Is4 (Addr p)" "low (Masked p) = low p"
    "abit (Addr (Masked p)) i \<longleftrightarrow> abit (Addr p) i \<and> low p \<le> i"
  using assms
  by (auto simp: IsValid_cases Masked_def PrefixFrom_def low_def bit_simps IsValid_def
        dest: bit32_len bit128_len)

lemma canonical_iff:
  "canonical p \<longleftrightarrow> IsValid p \<and> (\<forall>i<low p. \<not> abit (Addr p) i)"
  by (cases p; cases "Addr p") (auto simp: canonical_def low_def bit_eq_iff bit_simps IsValid_def dest: bit_imp_le_length)

lemma canonical_Masked: "canonical p \<longleftrightarrow> IsValid p \<and> Masked p = p"
proof
  assume c: "canonical p"
  then have v: "IsValid p" by (simp add: canonical_iff)
  have "Addr (Masked p) = Addr p"
    using c Masked_valid[OF v] by (intro addr_eqI) (auto simp: canonical_iff not_less)
  then show "IsValid p \<and> Masked p = p"
    using v Masked_valid(2)[OF v] by (simp add: prefix.expand)
next
  assume h: "IsValid p \<and> Masked p = p"
  show "canonical p"
    unfolding canonical_iff
  proof (intro conjI allI impI)
    show "IsValid p" using h by simp
    fix i assume "i < low p"
    then show "\<not> abit (Addr p) i"
      using Masked_valid(6)[of p i] h by auto
  qed
qed

lemma canonical_Masked_valid: "IsValid p \<Longrightarrow> canonical (Masked p)"
  using Masked_valid[of p] by (auto simp: canonical_iff)

lemma Contains_iff:
  "Contains p a \<longleftrightarrow> IsValid p \<and> BitLen a = BitLen (Addr p) \<and> agree (low p) a (Addr p)"
  by (cases p; cases "Addr p"; cases a)
     (auto simp: Contains_def IsValid_def agree_def low_def word_drop_xor_iff word_xor_mask_iff
           simp del: drop_bit_xor)

lemma Overlaps_iff:
  "Overlaps p q \<longleftrightarrow> IsValid p \<and> IsValid q \<and> BitLen (Addr p) = BitLen (Addr q) \<and>
     agree (max (low p) (low q)) (Addr p) (Addr q)"
proof (cases "IsValid p \<and> IsValid q")
  case False
  then show ?thesis by (auto simp: Overlaps_def)
next
  case True
  then show ?thesis
    apply (cases p; cases q; cases "Addr p"; cases "Addr q")
    apply (simp_all add: Overlaps_def Let_def PrefixFrom_def word_high_eq_iff agree_def low_def IsValid_def max_def)
    apply (auto dest: bit32_len bit128_len)
    done
qed

lemma shift32: 
  assumes "0 \<le> b" "b \<le> 31" shows "unat (31 - (word_of_int b :: 32 word)) = nat (31 - b)"
proof -
  define n where "n = nat b"
  have b: "b = int n" and n: "n \<le> 31" using assms by (auto simp: n_def)
  have u: "unat (of_nat n :: 32 word) = n" using n by (simp add: unat_of_nat)
  have "(of_nat n :: 32 word) \<le> 31" using n u by (simp add: word_le_nat_alt)
  then have "unat (31 - (of_nat n :: 32 word)) = 31 - n"
    using u by (simp add: unat_sub)
  then show ?thesis using b n by simp
qed

lemma go_quot_rem_nonneg: "0 \<le> a \<Longrightarrow> go_quot a 8 = a div 8 \<and> go_rem a 8 = a mod 8"
  by (cases "a = 0") (auto simp: go_quot_def go_rem_def minus_mult_div_eq_mod)

lemma setBit128_ok:
  assumes "0 \<le> b" "b < 128"
  shows "setBit128 (be_bytes 16 (v :: 128 word)) b = 
      Some ((be_bytes 16 v)[nat (b div 8) := (be_bytes 16 v ! nat (b div 8)) OR push_bit (nat (7 - b mod 8)) 1])"
  using assms by (auto simp: setBit128_def go_quot_rem_nonneg Let_def)

lemma splitPrefix_valid:
  assumes "IsValid p" "Bits p < maxPrefixBits p"
  shows "\<exists>a'. splitPrefix p = Some (Prefix (Addr p) (Bits p + 1), Prefix a' (Bits p + 1)) \<and>
     BitLen a' = BitLen (Addr p) \<and> (\<forall>i. abit a' i \<longleftrightarrow> abit (Addr p) i \<or> i = low p - 1)"
proof (cases "Addr p")
  case AddrZero
  then show ?thesis using assms by (simp add: IsValid_def)
next
  case (Addr4 v)
  then have b: "0 \<le> Bits p" "Bits p \<le> 31" using assms by (auto simp: IsValid_def maxPrefixBits_def)
  have u: "Uint32 (be_bytes 4 v) = v" by (simp add: Uint32_def be_word_be_bytes)
  have r: "AddrFrom4 (PutUint32 w) = Addr4 w" for w
    by (simp add: AddrFrom4_def PutUint32_def be_word_be_bytes)
  have "nat (31 - Bits p) = low p - 1"
    using b Addr4 by (simp add: low_def)
  then show ?thesis
    using Addr4 b by (auto simp: splitPrefix_def Let_def u r shift32 PrefixFrom_def bit_simps dest: bit32_len)
next
  case (Addr6 v)
  then have b: "0 \<le> Bits p" "Bits p < 128" using assms by (auto simp: IsValid_def maxPrefixBits_def)
  have k: "nat (7 - Bits p mod 8) < 8" "nat (Bits p div 8) < 16" using b by auto
  define n where "n = nat (Bits p)"
  have bn: "Bits p = int n" and n: "n < 128" using b by (auto simp: n_def)
  have "int n div 8 = int (n div 8)" "int n mod 8 = int (n mod 8)"
    by (simp_all add: zdiv_int zmod_int)
  then have q: "nat (Bits p div 8) = n div 8" and r: "nat (7 - Bits p mod 8) = 7 - n mod 8"
    by (simp_all add: bn)
  have l: "low p - 1 = 127 - n" using Addr6 n by (simp add: low_def bn)
  have "8 * (16 - 1 - n div 8) + (7 - n mod 8) = 127 - n" using n by presburger
  then have e: "8 * (16 - 1 - nat (Bits p div 8)) + nat (7 - Bits p mod 8) = low p - 1"
    by (simp only: l q r)
  have "AddrFrom16 ((be_bytes 16 v)[nat (Bits p div 8) := (be_bytes 16 v ! nat (Bits p div 8)) OR push_bit (nat (7 - Bits p mod 8)) 1])
     = Addr6 (v OR push_bit (low p - 1) 1)"
    unfolding AddrFrom16_def using be_word_set_bit[of 16 "nat (Bits p div 8)" "nat (7 - Bits p mod 8)" v] k e
    by simp
  then show ?thesis
    using Addr6 b by (auto simp: splitPrefix_def Let_def setBit128_ok PrefixFrom_def bit_simps low_def dest: bit128_len)
qed

lemma maxPrefixBits_valid: "IsValid p \<Longrightarrow> maxPrefixBits p = BitLen (Addr p)"
  by (cases "Addr p") (auto simp: maxPrefixBits_def IsValid_def)

lemma Is4_BitLen: "Is4 a \<longleftrightarrow> BitLen a = 32"
  by (cases a) auto

lemma split_halves:
  assumes v: "IsValid base" and lt: "Bits base < maxPrefixBits base"
    and s: "splitPrefix base = Some (l, r)"
  shows "IsValid l" "IsValid r" "Bits l = Bits base + 1" "Bits r = Bits base + 1"
    "BitLen (Addr l) = BitLen (Addr base)" "BitLen (Addr r) = BitLen (Addr base)"
    "Addr l = Addr base" "abit (Addr r) i \<longleftrightarrow> abit (Addr base) i \<or> i = low base - 1"
    "0 < low base" "low l = low base - 1" "low r = low base - 1"
proof -
  from splitPrefix_valid[OF v lt] s obtain a' where
    l: "l = Prefix (Addr base) (Bits base + 1)" and r: "r = Prefix a' (Bits base + 1)"
    and len: "BitLen a' = BitLen (Addr base)"
    and bits: "\<And>i. abit a' i \<longleftrightarrow> abit (Addr base) i \<or> i = low base - 1"
    by auto
  have lt': "Bits base < BitLen (Addr base)" using lt v by (simp add: maxPrefixBits_valid)
  have nz: "a' \<noteq> AddrZero" using len v by (cases "Addr base") (auto simp: IsValid_def)
  show "IsValid l" "IsValid r" using v lt' len nz by (auto simp: l r IsValid_def)
  show "Bits l = Bits base + 1" "Bits r = Bits base + 1" by (simp_all add: l r)
  show "BitLen (Addr l) = BitLen (Addr base)" "BitLen (Addr r) = BitLen (Addr base)"
    by (simp_all add: l r len)
  show "Addr l = Addr base" by (simp add: l)
  show "abit (Addr r) i \<longleftrightarrow> abit (Addr base) i \<or> i = low base - 1" using bits by (simp add: r)
  show "0 < low base" using lt' by (simp add: low_def)
  show "low l = low base - 1" "low r = low base - 1" using lt' v
    by (auto simp: low_def l r len IsValid_def)
qed

lemma split_measure:
  assumes v: "IsValid base" and lt: "Bits base < maxPrefixBits base"
    and s: "splitPrefix base = Some (l, r)"
  shows "nat (maxPrefixBits (Masked l) - Bits (Masked l)) < nat (maxPrefixBits base - Bits base)"
    "nat (maxPrefixBits (Masked r) - Bits (Masked r)) < nat (maxPrefixBits base - Bits base)"
proof -
  note h = split_halves[OF v lt s]
  have "maxPrefixBits (Masked l) = maxPrefixBits base" "maxPrefixBits (Masked r) = maxPrefixBits base"
    using h(1,2,5,6) v by (simp_all add: maxPrefixBits_valid Masked_valid)
  then show "nat (maxPrefixBits (Masked l) - Bits (Masked l)) < nat (maxPrefixBits base - Bits base)"
    "nat (maxPrefixBits (Masked r) - Bits (Masked r)) < nat (maxPrefixBits base - Bits base)"
    using h(1,2,3,4) lt by (simp_all add: Masked_valid)
qed

lemma Masked_Masked: "Masked (Masked p) = Masked p"
proof (cases "IsValid p")
  case True
  then show ?thesis using canonical_Masked_valid canonical_Masked by blast
next
  case False
  then show ?thesis by (simp add: Masked_invalid)
qed

lemma Overlaps_valid: "Overlaps p q \<Longrightarrow> IsValid p \<and> IsValid q"
  by (simp add: Overlaps_iff)

termination subtractPrefix
proof (relation "measure (\<lambda>(b, r). nat (maxPrefixBits (Masked b) - Bits (Masked b)))", goal_cases)
  case 1
  show ?case by simp
next
  case (2 base0 remove0 base remove sp left right)
  then have "IsValid base" "Bits base < maxPrefixBits base" "splitPrefix base = Some (left, right)"
    using Overlaps_valid by auto
  from split_measure(1)[OF this] 2 show ?case by simp
next
  case (3 base0 remove0 base remove sp left right)
  then have "IsValid base" "Bits base < maxPrefixBits base" "splitPrefix base = Some (left, right)"
    using Overlaps_valid by auto
  from split_measure(2)[OF this] 3 show ?case by simp
qed

section \<open>The order of addresses\<close>

lemma nat_less_bit:
  fixes m n :: nat
  assumes hi: "\<forall>i>k. bit m i = bit n i" and mk: "\<not> bit m k" and nk: "bit n k"
  shows "m < n"
proof -
  have d: "drop_bit (Suc k) m = drop_bit (Suc k) n"
    using hi by (auto simp: bit_eq_iff bit_simps)
  have tm: "take_bit (Suc k) m = take_bit k m"
    using mk by (simp add: take_bit_Suc_from_most)
  have tn: "take_bit (Suc k) n = 2 ^ k + take_bit k n"
    using nk by (simp add: take_bit_Suc_from_most)
  have lt: "take_bit k m < 2 ^ k" by simp
  have "m = push_bit (Suc k) (drop_bit (Suc k) m) + take_bit (Suc k) m"
    by (simp only: bits_ident)
  moreover have "n = push_bit (Suc k) (drop_bit (Suc k) n) + take_bit (Suc k) n"
    by (simp only: bits_ident)
  ultimately show ?thesis using d tm tn lt
    by (metis add_less_cancel_left trans_less_add1)
qed

lemma word_less_bit:
  fixes x y :: "'a::len word"
  assumes hi: "\<forall>i>k. bit x i = bit y i" and xk: "\<not> bit x k" and yk: "bit y k"
  shows "x < y"
  unfolding word_less_nat_alt
proof (rule nat_less_bit[of k])
  show "\<forall>i>k. bit (unat x) i = bit (unat y) i" using hi by (simp add: bit_simps)
  show "\<not> bit (unat x) k" using xk by (simp add: bit_simps)
  show "bit (unat y) k" using yk by (simp add: bit_simps bit_imp_le_length)
qed

lemma addrLess_bit:
  assumes "BitLen a = BitLen b" "agree (Suc k) a b" "\<not> abit a k" "abit b k"
  shows "addrLess a b"
  using assms 
  by (cases a; cases b) (auto simp: agree_def Suc_le_eq intro: word_less_bit)

section \<open>The two halves of a prefix\<close>

lemma canonical_valid: "canonical p \<Longrightarrow> IsValid p"
  by (simp add: canonical_iff)

lemma Contains_both_Overlaps:
  assumes "Contains p a" "Contains q a" shows "Overlaps p q"
  using assms unfolding Contains_iff Overlaps_iff agree_def by auto

lemma Overlaps_sym: "Overlaps p q \<longleftrightarrow> Overlaps q p"
  unfolding Overlaps_iff agree_def by (auto simp: max.commute)

lemma Contains_self: "IsValid p \<Longrightarrow> Contains p (Addr p)"
  by (simp add: Contains_iff agree_def)

lemma low_le_iff:
  "IsValid p \<Longrightarrow> IsValid q \<Longrightarrow> BitLen (Addr p) = BitLen (Addr q) \<Longrightarrow> low p \<le> low q \<longleftrightarrow> Bits q \<le> Bits p"
  by (auto simp: low_def IsValid_def)

lemma Overlaps_Contains_Addr:
  assumes "Overlaps p q" "Bits p \<le> Bits q" shows "Contains p (Addr q)"
proof -
  have "low q \<le> low p" using assms by (simp add: Overlaps_iff low_le_iff)
  then show ?thesis using assms(1) by (auto simp: Overlaps_iff Contains_iff agree_def max_def)
qed

lemma split_canonical:
  assumes c: "canonical base" and lt: "Bits base < maxPrefixBits base"
    and s: "splitPrefix base = Some (l, r)"
  shows "canonical l" "canonical r" "\<not> abit (Addr base) (low base - 1)"
proof -
  have v: "IsValid base" using c by (rule canonical_valid)
  note h = split_halves[OF v lt s]
  show "canonical l" using c h(1,7,10) by (auto simp: canonical_iff)
  show "canonical r" using c h(2,8,11) by (auto simp: canonical_iff)
  show "\<not> abit (Addr base) (low base - 1)" using c h(9) by (auto simp: canonical_iff)
qed

lemma agree_Suc: "agree j a b \<longleftrightarrow> agree (Suc j) a b \<and> abit a j = abit b j"
  unfolding agree_def by (metis Suc_leD le_antisym not_less_eq_eq)

lemma agree_pred: "0 < k \<Longrightarrow> agree (k - 1) a b \<longleftrightarrow> agree k a b \<and> abit a (k - 1) = abit b (k - 1)"
  using agree_Suc[of "k - 1" a b] by simp

lemma split_Contains:
  assumes c: "canonical base" and lt: "Bits base < maxPrefixBits base"
    and s: "splitPrefix base = Some (l, r)"
  shows "Contains l a \<longleftrightarrow> Contains base a \<and> \<not> abit a (low base - 1)"
    "Contains r a \<longleftrightarrow> Contains base a \<and> abit a (low base - 1)"
proof -
  have v: "IsValid base" using c by (rule canonical_valid)
  note h = split_halves[OF v lt s]
  note z = split_canonical(3)[OF c lt s]
  show "Contains l a \<longleftrightarrow> Contains base a \<and> \<not> abit a (low base - 1)"
    unfolding Contains_iff using h(1,5,7,9,10) v z agree_pred[OF h(9), of a "Addr base"] by auto
  have "abit (Addr r) (low base - 1)" "agree (low base) a (Addr r) \<longleftrightarrow> agree (low base) a (Addr base)"
    using h(8,9) by (auto simp: agree_def)
  then show "Contains r a \<longleftrightarrow> Contains base a \<and> abit a (low base - 1)"
    unfolding Contains_iff using h(2,6,9,11) v agree_pred[OF h(9), of a "Addr r"] by auto
qed

lemma split_order:
  assumes c: "canonical base" and lt: "Bits base < maxPrefixBits base"
    and s: "splitPrefix base = Some (l, r)"
    and a: "Contains l a" and b: "Contains r b"
  shows "addrLess a b"
proof -
  note h = split_halves[OF canonical_valid[OF c] lt s]
  have A: "Contains base a" "\<not> abit a (low base - 1)" using a split_Contains(1)[OF c lt s] by auto
  have B: "Contains base b" "abit b (low base - 1)" using b split_Contains(2)[OF c lt s] by auto
  have "agree (low base) a b" "BitLen a = BitLen b"
    using A(1) B(1) by (auto simp: Contains_iff agree_def)
  then show ?thesis using addrLess_bit[of a b "low base - 1"] A(2) B(2) h(9) by simp
qed

lemma remove_longer:
  assumes o: "Overlaps base remove"
    and n: "\<not> (Contains remove (Addr base) \<and> Bits remove \<le> Bits base)"
  shows "Bits base < Bits remove" "Bits base < maxPrefixBits base" "low remove < low base"
proof -
  show 1: "Bits base < Bits remove"
    using Overlaps_Contains_Addr[of remove base] o n Overlaps_sym by fastforce
  have v: "IsValid base" "IsValid remove" "BitLen (Addr base) = BitLen (Addr remove)"
    using o by (auto simp: Overlaps_iff)
  then show "Bits base < maxPrefixBits base" using 1 by (auto simp: maxPrefixBits_valid IsValid_def)
  show "low remove < low base" using 1 v by (auto simp: low_def IsValid_def)
qed

lemma split_Overlaps:
  assumes c: "canonical base" 
    and o: "Overlaps base remove"
    and n: "\<not> (Contains remove (Addr base) \<and> Bits remove \<le> Bits base)"
    and s: "splitPrefix base = Some (l, r)"
  shows "Overlaps remove l \<longleftrightarrow> \<not> abit (Addr remove) (low base - 1)"
    "Overlaps remove r \<longleftrightarrow> abit (Addr remove) (low base - 1)"
proof -
  note rl = remove_longer[OF o n]
  have v: "IsValid base" using c by (rule canonical_valid)
  note h = split_halves[OF v rl(2) s]
  have vr: "IsValid remove" using o by (simp add: Overlaps_iff)
  have cr: "Contains remove (Addr remove)" using vr by (rule Contains_self)
  have ob: "Contains base (Addr remove)" using Overlaps_Contains_Addr[OF o] rl(1) by simp
  have 1: "Overlaps remove l \<longleftrightarrow> Contains l (Addr remove)"
    using Contains_both_Overlaps[OF cr] Overlaps_Contains_Addr[of l remove] h(3) rl(1) Overlaps_sym
    by fastforce
  have 2: "Overlaps remove r \<longleftrightarrow> Contains r (Addr remove)"
    using Contains_both_Overlaps[OF cr] Overlaps_Contains_Addr[of r remove] h(4) rl(1) Overlaps_sym
    by fastforce
  show "Overlaps remove l \<longleftrightarrow> \<not> abit (Addr remove) (low base - 1)"
    using 1 ob split_Contains(1)[OF c rl(2) s] by simp
  show "Overlaps remove r \<longleftrightarrow> abit (Addr remove) (low base - 1)"
    using 2 ob split_Contains(2)[OF c rl(2) s] by simp
qed

section \<open>Correctness of \<open>subtractPrefix\<close>\<close>

declare subtractPrefix.simps [simp del]

lemma subtractPrefix_canonical:
  assumes "canonical base" "canonical remove"
  shows "subtractPrefix base remove =
     (if \<not> Overlaps base remove then Some [base]
      else if Contains remove (Addr base) \<and> Bits remove \<le> Bits base then Some []
      else if Bits base \<ge> maxPrefixBits base then Some [base]
      else case splitPrefix base of
           None \<Rightarrow> None
         | Some (left, right) \<Rightarrow>
             if Overlaps remove left then
               (case subtractPrefix left remove of
                  None \<Rightarrow> None
                | Some fs \<Rightarrow> Some (fs @ [right]))
             else
               (case subtractPrefix right remove of
                  None \<Rightarrow> None
                | Some fs \<Rightarrow> Some ([left] @ fs)))"
  using assms by (subst subtractPrefix.simps) (simp add: canonical_Masked Let_def)

lemma Contains_wider:
  assumes "Contains remove (Addr base)" "Bits remove \<le> Bits base" "Contains base a"
  shows "Contains remove a"
proof -
  have v: "IsValid remove" "IsValid base" "BitLen (Addr base) = BitLen (Addr remove)"
    using assms by (auto simp: Contains_iff)
  then have "low base \<le> low remove" using assms(2) by (simp add: low_le_iff)
  then show ?thesis using assms v unfolding Contains_iff agree_def by auto
qed

lemma subtract_main:
  assumes "canonical base" "canonical remove"
  shows "\<exists>fs. subtractPrefix base remove = Some fs \<and> fragmentsOK base remove fs"
  using assms
proof (induction "low base" arbitrary: base rule: less_induct)
  case less
  note c = \<open>canonical base\<close> and cr = \<open>canonical remove\<close>
  note eq = subtractPrefix_canonical[OF c cr]
  consider (disjoint) "\<not> Overlaps base remove"
    | (inside) "Overlaps base remove" "Contains remove (Addr base) \<and> Bits remove \<le> Bits base"
    | (split) "Overlaps base remove" "\<not> (Contains remove (Addr base) \<and> Bits remove \<le> Bits base)"
    by blast
  then show ?case
  proof cases
    case disjoint
    then have "subtractPrefix base remove = Some [base]" using eq by simp
    moreover have "fragmentsOK base remove [base]"
      using c disjoint Contains_both_Overlaps[of base _ remove]
      by (auto simp: fragmentsOK_def addressOrder_def)
    ultimately show ?thesis by blast
  next
    case inside
    then have "subtractPrefix base remove = Some []" using eq by simp
    moreover have "fragmentsOK base remove []"
      using inside Contains_wider[of remove base] by (auto simp: fragmentsOK_def addressOrder_def)
    ultimately show ?thesis by blast
  next
    case split
    note rl = remove_longer[OF split]
    have v: "IsValid base" using c by (rule canonical_valid)
    obtain l r where s: "splitPrefix base = Some (l, r)"
      using splitPrefix_valid[OF v rl(2)] by blast
    note h = split_halves[OF v rl(2) s]
    note sc = split_canonical[OF c rl(2) s]
    note so = split_Overlaps[OF c split s]
    note sC = split_Contains[OF c rl(2) s]
    show ?thesis
    proof (cases "Overlaps remove l")
      case True
      then have nr: "\<not> Overlaps remove r" using so by simp
      have "low l < low base" using h(9,10) by simp
      from less.hyps[OF this sc(1) cr] obtain fs where
        fs: "subtractPrefix l remove = Some fs" and ok: "fragmentsOK l remove fs" by blast
      have res: "subtractPrefix base remove = Some (fs @ [r])"
        using eq split rl(2) s True fs by simp
      have inl: "\<And>f a. f \<in> set fs \<Longrightarrow> Contains f a \<Longrightarrow> Contains l a"
        using ok by (auto simp: fragmentsOK_def)
      have "fragmentsOK base remove (fs @ [r])"
        unfolding fragmentsOK_def
      proof (intro conjI ballI allI)
        fix f assume "f \<in> set (fs @ [r])"
        then show "canonical f" "BitLen (Addr f) = BitLen (Addr base)" "Bits base \<le> Bits f"
          using ok sc(2) h(3,4,5,6) by (auto simp: fragmentsOK_def)
      next
        fix a
        have "Contains r a \<Longrightarrow> \<not> Contains remove a"
          using nr Contains_both_Overlaps[of remove a r] by blast
        then show "(\<exists>f\<in>set (fs @ [r]). Contains f a) \<longleftrightarrow> Contains base a \<and> \<not> Contains remove a"
          using ok sC[of a] by (auto simp: fragmentsOK_def)
      next
        show "addressOrder (fs @ [r])"
          using ok inl split_order[OF c rl(2) s]
          by (auto simp: fragmentsOK_def addressOrder_def sorted_wrt_append)
      qed
      then show ?thesis using res by blast
    next
      case False
      have "low r < low base" using h(9,11) by simp
      from less.hyps[OF this sc(2) cr] obtain fs where
        fs: "subtractPrefix r remove = Some fs" and ok: "fragmentsOK r remove fs" by blast
      have res: "subtractPrefix base remove = Some ([l] @ fs)"
        using eq split rl(2) s False fs by simp
      have inr: "\<And>f a. f \<in> set fs \<Longrightarrow> Contains f a \<Longrightarrow> Contains r a"
        using ok by (auto simp: fragmentsOK_def)
      have "fragmentsOK base remove ([l] @ fs)"
        unfolding fragmentsOK_def
      proof (intro conjI ballI allI)
        fix f assume "f \<in> set ([l] @ fs)"
        then show "canonical f" "BitLen (Addr f) = BitLen (Addr base)" "Bits base \<le> Bits f"
          using ok sc(1) h(3,4,5,6) by (auto simp: fragmentsOK_def)
      next
        fix a
        have "Contains l a \<Longrightarrow> \<not> Contains remove a"
          using False Contains_both_Overlaps[of remove a l] by blast
        then show "(\<exists>f\<in>set ([l] @ fs). Contains f a) \<longleftrightarrow> Contains base a \<and> \<not> Contains remove a"
          using ok sC[of a] by (auto simp: fragmentsOK_def)
      next
        show "addressOrder ([l] @ fs)"
          using ok inr split_order[OF c rl(2) s]
          by (auto simp: fragmentsOK_def addressOrder_def)
      qed
      then show ?thesis using res by blast
    qed
  qed
qed

lemma addrLess_irrefl: "\<not> addrLess a a"
  by (cases a) auto

lemma addressOrder_disjoint:
  assumes "addressOrder fs" "i < j" "j < length fs"
  shows "\<not> (Contains (fs ! i) a \<and> Contains (fs ! j) a)"
proof -
  have "\<forall>x y. Contains (fs ! i) x \<longrightarrow> Contains (fs ! j) y \<longrightarrow> addrLess x y"
    using assms by (simp add: addressOrder_def sorted_wrt_iff_nth_less)
  then show ?thesis using addrLess_irrefl by blast
qed

lemma low_maxPrefixBits: "IsValid p \<Longrightarrow> nat (maxPrefixBits p - Bits p) = low p"
  by (simp add: maxPrefixBits_valid low_def)

lemma fuel_enough:
  assumes "canonical base" "canonical remove" "low base < n"
  shows "subtractPrefixFuel n base remove = Some (subtractPrefix base remove)"
  using assms
proof (induction n arbitrary: base)
  case 0
  then show ?case by simp
next
  case (Suc n)
  note c = \<open>canonical base\<close> and cr = \<open>canonical remove\<close>
  note eq = subtractPrefix_canonical[OF c cr]
  have M: "Masked base = base" "Masked remove = remove" using c cr by (simp_all add: canonical_Masked)
  show ?case
  proof (cases "Overlaps base remove \<and> \<not> (Contains remove (Addr base) \<and> Bits remove \<le> Bits base)")
    case False
    then show ?thesis using eq M by (auto simp: Let_def)
  next
    case True
    then have o: "Overlaps base remove" and nc: "\<not> (Contains remove (Addr base) \<and> Bits remove \<le> Bits base)"
      by auto
    note rl = remove_longer[OF o nc]
    have v: "IsValid base" using c by (rule canonical_valid)
    obtain l r where s: "splitPrefix base = Some (l, r)"
      using splitPrefix_valid[OF v rl(2)] by blast
    note h = split_halves[OF v rl(2) s]
    note sc = split_canonical[OF c rl(2) s]
    have "low l < n" "low r < n" using h(9,10,11) Suc.prems(3) by auto
    then have "subtractPrefixFuel n l remove = Some (subtractPrefix l remove)"
      "subtractPrefixFuel n r remove = Some (subtractPrefix r remove)"
      using Suc.IH sc cr by auto
    then show ?thesis using eq M o nc rl(2) s
      by (auto simp: Let_def split: option.splits)
  qed
qed

section \<open>The properties\<close>

text \<open>
  C1: for canonical prefixes \<open>A\<close> and \<open>B\<close> of the same family, \<open>subtractPrefix A B\<close>
  returns a list of prefixes, and the union of the address sets of these prefixes is exactly
  the set of the addresses of \<open>A\<close> that are not in \<open>B\<close>.
\<close>

theorem subtractPrefix_coverage:
  assumes "canonical A" "canonical B" "Is4 (Addr A) = Is4 (Addr B)"
  shows "\<exists>fs. subtractPrefix A B = Some fs \<and>
           (\<Union>f\<in>set fs. {a. Contains f a}) = {a. Contains A a \<and> \<not> Contains B a}"
proof -
  from subtract_main[OF assms(1,2)] obtain fs where
    "subtractPrefix A B = Some fs" "fragmentsOK A B fs" by blast
  then show ?thesis by (auto simp: fragmentsOK_def)
qed

theorem subtractPrefix_coverage_witness:
  "canonical (Prefix (Addr4 0x0A000000) 24) \<and> canonical (Prefix (Addr4 0x0A000080) 25) \<and>
   Is4 (Addr (Prefix (Addr4 0x0A000000) 24)) = Is4 (Addr (Prefix (Addr4 0x0A000080) 25)) \<and>
   subtractPrefix (Prefix (Addr4 0x0A000000) 24) (Prefix (Addr4 0x0A000080) 25)
     = Some [Prefix (Addr4 0x0A000000) 25] \<and>
   {a. Contains (Prefix (Addr4 0x0A000000) 25) a}
     = {a. Contains (Prefix (Addr4 0x0A000000) 24) a \<and> \<not> Contains (Prefix (Addr4 0x0A000080) 25) a}"
proof -
  have c: "canonical (Prefix (Addr4 0x0A000000) 24)" "canonical (Prefix (Addr4 0x0A000080) 25)"
    by (simp_all add: canonical_def IsValid_def)
  have f: "Is4 (Addr (Prefix (Addr4 0x0A000000) 24)) = Is4 (Addr (Prefix (Addr4 0x0A000080) 25))"
    by simp
  have e: "subtractPrefix (Prefix (Addr4 0x0A000000) 24) (Prefix (Addr4 0x0A000080) 25)
     = Some [Prefix (Addr4 0x0A000000) 25]"
    by code_simp
  show ?thesis using subtractPrefix_coverage[OF c f] c e by simp
qed

text \<open>
  C2: for canonical prefixes \<open>A\<close> and \<open>B\<close> of the same family, the prefixes returned by
  \<open>subtractPrefix A B\<close> are pairwise disjoint: no address belongs to the fragments at two
  different positions of the list.
\<close>

theorem subtractPrefix_disjoint:
  assumes "canonical A" "canonical B" "Is4 (Addr A) = Is4 (Addr B)"
  shows "\<exists>fs. subtractPrefix A B = Some fs \<and>
           (\<forall>i j a. i < j \<longrightarrow> j < length fs \<longrightarrow> \<not> (Contains (fs ! i) a \<and> Contains (fs ! j) a))"
proof -
  from subtract_main[OF assms(1,2)] obtain fs where
    "subtractPrefix A B = Some fs" "addressOrder fs" by (auto simp: fragmentsOK_def)
  then show ?thesis using addressOrder_disjoint by blast
qed

theorem subtractPrefix_disjoint_witness:
  "canonical (Prefix (Addr4 0x0A000000) 24) \<and> canonical (Prefix (Addr4 0x0A000040) 26) \<and>
   Is4 (Addr (Prefix (Addr4 0x0A000000) 24)) = Is4 (Addr (Prefix (Addr4 0x0A000040) 26)) \<and>
   subtractPrefix (Prefix (Addr4 0x0A000000) 24) (Prefix (Addr4 0x0A000040) 26)
     = Some [Prefix (Addr4 0x0A000000) 26, Prefix (Addr4 0x0A000080) 25] \<and>
   (\<forall>a. \<not> (Contains (Prefix (Addr4 0x0A000000) 26) a \<and> Contains (Prefix (Addr4 0x0A000080) 25) a))"
proof -
  have c: "canonical (Prefix (Addr4 0x0A000000) 24)" "canonical (Prefix (Addr4 0x0A000040) 26)"
    by (simp_all add: canonical_def IsValid_def)
  have f: "Is4 (Addr (Prefix (Addr4 0x0A000000) 24)) = Is4 (Addr (Prefix (Addr4 0x0A000040) 26))"
    by simp
  have e: "subtractPrefix (Prefix (Addr4 0x0A000000) 24) (Prefix (Addr4 0x0A000040) 26)
     = Some [Prefix (Addr4 0x0A000000) 26, Prefix (Addr4 0x0A000080) 25]"
    by code_simp
  from subtractPrefix_disjoint[OF c f] e
  have "\<forall>i j a. i < j \<longrightarrow> j < length [Prefix (Addr4 0x0A000000) 26, Prefix (Addr4 0x0A000080) 25] \<longrightarrow>
     \<not> (Contains ([Prefix (Addr4 0x0A000000) 26, Prefix (Addr4 0x0A000080) 25] ! i) a \<and>
        Contains ([Prefix (Addr4 0x0A000000) 26, Prefix (Addr4 0x0A000080) 25] ! j) a)"
    by simp
  from this[rule_format, of 0 1] show ?thesis using c e by simp
qed

lemma Contains_host:
  assumes "IsValid p" "low p = 0"
  shows "Contains p a \<longleftrightarrow> a = Addr p"
  using assms addr_eqI[of a "Addr p"] by (auto simp: Contains_iff agree_def)

text \<open>
  C4: for canonical prefixes of the same family, \<open>subtractPrefix\<close> returns its fragments
  in address order, the fragment covering the lower addresses first. In particular,
  subtracting the host 192.168.1.1/32 from 192.168.1.0/24 gives 8 pairwise disjoint fragments
  of the lengths 32, 31, 30, 29, 28, 27, 26, 25, which together cover every address of
  192.168.1.0/24 except 192.168.1.1.
\<close>

theorem subtractPrefix_address_order:
  "(canonical A \<and> canonical B \<and> Is4 (Addr A) = Is4 (Addr B) \<longrightarrow>
      (\<exists>fs. subtractPrefix A B = Some fs \<and> addressOrder fs)) \<and>
   (\<exists>fs. subtractPrefix (Prefix (Addr4 0xC0A80100) 24) (Prefix (Addr4 0xC0A80101) 32) = Some fs \<and>
      length fs = 8 \<and>
      map Bits fs = [32, 31, 30, 29, 28, 27, 26, 25] \<and>
      (\<forall>i j a. i < j \<longrightarrow> j < length fs \<longrightarrow> \<not> (Contains (fs ! i) a \<and> Contains (fs ! j) a)) \<and>
      (\<forall>a. (\<exists>f\<in>set fs. Contains f a) \<longleftrightarrow>
         Contains (Prefix (Addr4 0xC0A80100) 24) a \<and> a \<noteq> Addr4 0xC0A80101))"
proof (intro conjI impI)
  assume "canonical A \<and> canonical B \<and> Is4 (Addr A) = Is4 (Addr B)"
  then show "\<exists>fs. subtractPrefix A B = Some fs \<and> addressOrder fs"
    using subtract_main[of A B] by (auto simp: fragmentsOK_def)
next
  let ?A = "Prefix (Addr4 0xC0A80100) 24" and ?B = "Prefix (Addr4 0xC0A80101) 32"
  let ?fs = "[Prefix (Addr4 0xC0A80100) 32, Prefix (Addr4 0xC0A80102) 31, Prefix (Addr4 0xC0A80104) 30,
      Prefix (Addr4 0xC0A80108) 29, Prefix (Addr4 0xC0A80110) 28, Prefix (Addr4 0xC0A80120) 27,
      Prefix (Addr4 0xC0A80140) 26, Prefix (Addr4 0xC0A80180) 25]"
  have e: "subtractPrefix ?A ?B = Some ?fs" by code_simp
  have c: "canonical ?A" "canonical ?B" by (simp_all add: canonical_def IsValid_def)
  from subtract_main[OF c] e have ok: "fragmentsOK ?A ?B ?fs" by simp
  have host: "Contains ?B a \<longleftrightarrow> a = Addr4 0xC0A80101" for a
    using Contains_host[of ?B a] by (simp add: IsValid_def low_def)
  have d: "\<forall>i j a. i < j \<longrightarrow> j < length ?fs \<longrightarrow> \<not> (Contains (?fs ! i) a \<and> Contains (?fs ! j) a)"
    using ok addressOrder_disjoint[of ?fs] unfolding fragmentsOK_def by blast
  have cov: "\<forall>a. (\<exists>f\<in>set ?fs. Contains f a) \<longleftrightarrow> Contains ?A a \<and> a \<noteq> Addr4 0xC0A80101"
    using ok unfolding fragmentsOK_def host by blast
  show "\<exists>fs. subtractPrefix ?A ?B = Some fs \<and>
      length fs = 8 \<and>
      map Bits fs = [32, 31, 30, 29, 28, 27, 26, 25] \<and>
      (\<forall>i j a. i < j \<longrightarrow> j < length fs \<longrightarrow> \<not> (Contains (fs ! i) a \<and> Contains (fs ! j) a)) \<and>
      (\<forall>a. (\<exists>f\<in>set fs. Contains f a) \<longleftrightarrow> Contains ?A a \<and> a \<noteq> Addr4 0xC0A80101)"
    using e d cov by (intro exI[of _ ?fs] conjI) simp_all
qed

theorem subtractPrefix_address_order_witness:
  "canonical (Prefix (Addr6 0) 126) \<and> canonical (Prefix (Addr6 1) 128) \<and>
   Is4 (Addr (Prefix (Addr6 0) 126)) = Is4 (Addr (Prefix (Addr6 1) 128)) \<and>
   subtractPrefix (Prefix (Addr6 0) 126) (Prefix (Addr6 1) 128)
     = Some [Prefix (Addr6 0) 128, Prefix (Addr6 2) 127] \<and>
   addressOrder [Prefix (Addr6 0) 128, Prefix (Addr6 2) 127]"
proof -
  have c: "canonical (Prefix (Addr6 0) 126) \<and> canonical (Prefix (Addr6 1) 128) \<and>
     Is4 (Addr (Prefix (Addr6 0) 126)) = Is4 (Addr (Prefix (Addr6 1) 128))"
    by (simp add: canonical_def IsValid_def)
  have e: "subtractPrefix (Prefix (Addr6 0) 126) (Prefix (Addr6 1) 128)
     = Some [Prefix (Addr6 0) 128, Prefix (Addr6 2) 127]"
    by code_simp
  from subtractPrefix_address_order[of "Prefix (Addr6 0) 126" "Prefix (Addr6 1) 128"] c
  have "\<exists>fs. subtractPrefix (Prefix (Addr6 0) 126) (Prefix (Addr6 1) 128) = Some fs \<and> addressOrder fs"
    by blast
  then show ?thesis using c e by simp
qed

text \<open>
  C8: on canonical prefixes of the same family \<open>subtractPrefix\<close> returns a list (no panic),
  and it does so within \<open>width - Bits A\<close> recursive calls, which is at most 32 for the
  32-bit family and at most 128 for the 128-bit family: a budget of one call more than that
  is enough for \<open>subtractPrefixFuel\<close>. Each recursive call is on a half whose length is
  the length of the base plus one.
\<close>

theorem subtractPrefix_terminates:
  assumes "canonical A" "canonical B" "Is4 (Addr A) = Is4 (Addr B)"
  shows "(\<exists>fs. subtractPrefix A B = Some fs) \<and>
         subtractPrefixFuel (Suc (nat (maxPrefixBits A - Bits A))) A B = Some (subtractPrefix A B) \<and>
         nat (maxPrefixBits A - Bits A) \<le> (if Is4 (Addr A) then 32 else 128) \<and>
         (\<forall>left right.
            Overlaps A B \<and> \<not> (Contains B (Addr A) \<and> Bits B \<le> Bits A) \<and>
            \<not> maxPrefixBits A \<le> Bits A \<and> splitPrefix A = Some (left, right) \<longrightarrow>
            Bits left = Bits A + 1 \<and> Bits right = Bits A + 1)"
proof (intro conjI allI impI)
  have v: "IsValid A" using assms(1) by (rule canonical_valid)
  show "\<exists>fs. subtractPrefix A B = Some fs" using subtract_main[OF assms(1,2)] by blast
  show "subtractPrefixFuel (Suc (nat (maxPrefixBits A - Bits A))) A B = Some (subtractPrefix A B)"
    using fuel_enough[OF assms(1,2), of "Suc (low A)"] v by (simp add: low_maxPrefixBits)
  show "nat (maxPrefixBits A - Bits A) \<le> (if Is4 (Addr A) then 32 else 128)"
    using v by (auto simp: maxPrefixBits_def IsValid_def)
  fix left right
  assume "Overlaps A B \<and> \<not> (Contains B (Addr A) \<and> Bits B \<le> Bits A) \<and>
            \<not> maxPrefixBits A \<le> Bits A \<and> splitPrefix A = Some (left, right)"
  then show "Bits left = Bits A + 1" "Bits right = Bits A + 1"
    using split_halves(3,4)[OF v, of left right] by auto
qed

theorem subtractPrefix_terminates_witness:
  "canonical (Prefix (Addr4 0x0A000000) 8) \<and> canonical (Prefix (Addr4 0x0A010000) 16) \<and>
   Is4 (Addr (Prefix (Addr4 0x0A000000) 8)) = Is4 (Addr (Prefix (Addr4 0x0A010000) 16)) \<and>
   subtractPrefixFuel 25 (Prefix (Addr4 0x0A000000) 8) (Prefix (Addr4 0x0A010000) 16)
     = Some (subtractPrefix (Prefix (Addr4 0x0A000000) 8) (Prefix (Addr4 0x0A010000) 16)) \<and>
   (\<exists>fs. subtractPrefix (Prefix (Addr4 0x0A000000) 8) (Prefix (Addr4 0x0A010000) 16) = Some fs)"
proof -
  have c: "canonical (Prefix (Addr4 0x0A000000) 8)" "canonical (Prefix (Addr4 0x0A010000) 16)"
    by (simp_all add: canonical_def IsValid_def)
  have f: "Is4 (Addr (Prefix (Addr4 0x0A000000) 8)) = Is4 (Addr (Prefix (Addr4 0x0A010000) 16))"
    by simp
  have n: "Suc (nat (maxPrefixBits (Prefix (Addr4 0x0A000000) 8) - Bits (Prefix (Addr4 0x0A000000) 8))) = 25"
    by (simp add: maxPrefixBits_def)
  show ?thesis using subtractPrefix_terminates[OF c f] c unfolding n by simp
qed

text \<open>
  C9: in the recursive step of \<open>subtractPrefix\<close> (canonical prefixes of the same family,
  \<open>base\<close> overlaps \<open>remove\<close>, \<open>remove\<close> does not contain \<open>base\<close>, the length of
  \<open>base\<close> is below the width), exactly one of the two halves of \<open>splitPrefix base\<close>
  overlaps \<open>remove\<close>, and the half that is returned whole has no address of \<open>remove\<close>.
\<close>

theorem splitPrefix_one_half_overlaps:
  assumes "canonical base" "canonical remove" "Is4 (Addr base) = Is4 (Addr remove)"
    and "Overlaps base remove"
    and "\<not> (Contains remove (Addr base) \<and> Bits remove \<le> Bits base)"
    and "Bits base < maxPrefixBits base"
  shows "\<exists>left right. splitPrefix base = Some (left, right) \<and>
           (Overlaps remove left \<longleftrightarrow> \<not> Overlaps remove right) \<and>
           (Overlaps remove left \<longrightarrow> (\<forall>a. Contains remove a \<longrightarrow> \<not> Contains right a)) \<and>
           (\<not> Overlaps remove left \<longrightarrow> (\<forall>a. Contains remove a \<longrightarrow> \<not> Contains left a))"
proof -
  have v: "IsValid base" using assms(1) by (rule canonical_valid)
  obtain l r where s: "splitPrefix base = Some (l, r)"
    using splitPrefix_valid[OF v assms(6)] by blast
  note so = split_Overlaps[OF assms(1,4,5) s]
  have "Overlaps remove l \<longleftrightarrow> \<not> Overlaps remove r" using so by simp
  moreover have "\<not> Overlaps remove r \<longrightarrow> (\<forall>a. Contains remove a \<longrightarrow> \<not> Contains r a)"
    using Contains_both_Overlaps by blast
  moreover have "\<not> Overlaps remove l \<longrightarrow> (\<forall>a. Contains remove a \<longrightarrow> \<not> Contains l a)"
    using Contains_both_Overlaps by blast
  ultimately show ?thesis using s by auto
qed

theorem splitPrefix_one_half_overlaps_witness:
  "canonical (Prefix (Addr4 0xC0A80100) 24) \<and> canonical (Prefix (Addr4 0xC0A801C0) 26) \<and>
   Overlaps (Prefix (Addr4 0xC0A80100) 24) (Prefix (Addr4 0xC0A801C0) 26) \<and>
   splitPrefix (Prefix (Addr4 0xC0A80100) 24)
     = Some (Prefix (Addr4 0xC0A80100) 25, Prefix (Addr4 0xC0A80180) 25) \<and>
   \<not> Overlaps (Prefix (Addr4 0xC0A801C0) 26) (Prefix (Addr4 0xC0A80100) 25) \<and>
   Overlaps (Prefix (Addr4 0xC0A801C0) 26) (Prefix (Addr4 0xC0A80180) 25) \<and>
   Contains (Prefix (Addr4 0xC0A801C0) 26) (Addr4 0xC0A801C5) \<and>
   \<not> Contains (Prefix (Addr4 0xC0A80100) 25) (Addr4 0xC0A801C5)"
proof -
  let ?b = "Prefix (Addr4 0xC0A80100) 24" and ?r = "Prefix (Addr4 0xC0A801C0) 26"
  have c: "canonical ?b" "canonical ?r" by (simp_all add: canonical_def IsValid_def)
  have f: "Is4 (Addr ?b) = Is4 (Addr ?r)" by simp
  have o: "Overlaps ?b ?r" by code_simp
  have n: "\<not> (Contains ?r (Addr ?b) \<and> Bits ?r \<le> Bits ?b)" by simp
  have m: "Bits ?b < maxPrefixBits ?b" by (simp add: maxPrefixBits_def)
  have s: "splitPrefix ?b = Some (Prefix (Addr4 0xC0A80100) 25, Prefix (Addr4 0xC0A80180) 25)"
    by code_simp
  have l: "\<not> Overlaps ?r (Prefix (Addr4 0xC0A80100) 25)" by code_simp
  have a: "Contains ?r (Addr4 0xC0A801C5)" by code_simp
  show ?thesis using splitPrefix_one_half_overlaps[OF c f o n m] c o s l a by auto
qed

lemma length_As16 [simp]: "length (As16 a) = 16"
  by (cases a) simp_all

text \<open>
  C10: when \<open>subtractPrefix\<close> reaches its call of \<open>splitPrefix\<close> (the three tests
  before it have failed on the masked arguments), the length of the base is at least 0 and
  below the width of its family. So for the 32-bit family the shift count
  \<open>31 - uint32(bits)\<close> does not wrap and lies in 0..31; for the 128-bit family the byte index
  of \<open>setBit128\<close> lies in 0..15 and its bit index in 0..7, and \<open>setBit128\<close> does not
  panic; and \<open>splitPrefix\<close> returns two valid prefixes of length \<open>bits + 1\<close>, which is at
  most the width.
\<close>

theorem splitPrefix_call_in_range:
  assumes "base = Masked base0" "remove = Masked remove0"
    and "Overlaps base remove"
    and "\<not> (Contains remove (Addr base) \<and> Bits remove \<le> Bits base)"
    and "\<not> maxPrefixBits base \<le> Bits base"
  shows "0 \<le> Bits base \<and> Bits base < maxPrefixBits base \<and>
    (Is4 (Addr base) \<longrightarrow>
       unat (31 - (word_of_int (Bits base) :: 32 word)) = nat (31 - Bits base) \<and>
       0 \<le> 31 - Bits base \<and> 31 - Bits base \<le> 31) \<and>
    (\<not> Is4 (Addr base) \<longrightarrow>
       length (As16 (Addr base)) = 16 \<and>
       0 \<le> go_quot (Bits base) 8 \<and> go_quot (Bits base) 8 \<le> 15 \<and>
       0 \<le> 7 - go_rem (Bits base) 8 \<and> 7 - go_rem (Bits base) 8 \<le> 7 \<and>
       setBit128 (As16 (Addr base)) (Bits base) \<noteq> None) \<and>
    (\<exists>left right. splitPrefix base = Some (left, right) \<and>
       IsValid left \<and> IsValid right \<and>
       Bits left = Bits base + 1 \<and> Bits right = Bits base + 1 \<and>
       Bits base + 1 \<le> maxPrefixBits base)"
proof -
  have v: "IsValid base" using assms(3) by (simp add: Overlaps_iff)
  have lt: "Bits base < maxPrefixBits base" using assms(5) by simp
  have b0: "0 \<le> Bits base" using v by (simp add: IsValid_def)
  obtain l r where s: "splitPrefix base = Some (l, r)"
    using splitPrefix_valid[OF v lt] by blast
  note h = split_halves[OF v lt s]
  have 4: "Is4 (Addr base) \<longrightarrow>
       unat (31 - (word_of_int (Bits base) :: 32 word)) = nat (31 - Bits base) \<and>
       0 \<le> 31 - Bits base \<and> 31 - Bits base \<le> 31"
    using b0 lt shift32[of "Bits base"] by (auto simp: maxPrefixBits_def)
  have 6: "\<not> Is4 (Addr base) \<longrightarrow>
       length (As16 (Addr base)) = 16 \<and>
       0 \<le> go_quot (Bits base) 8 \<and> go_quot (Bits base) 8 \<le> 15 \<and>
       0 \<le> 7 - go_rem (Bits base) 8 \<and> 7 - go_rem (Bits base) 8 \<le> 7 \<and>
       setBit128 (As16 (Addr base)) (Bits base) \<noteq> None"
  proof
    assume n4: "\<not> Is4 (Addr base)"
    then have b: "Bits base < 128" using lt by (simp add: maxPrefixBits_def)
    have q: "go_quot (Bits base) 8 = Bits base div 8" "go_rem (Bits base) 8 = Bits base mod 8"
      using go_quot_rem_nonneg[OF b0] by simp_all
    have "0 \<le> Bits base div 8" "Bits base div 8 \<le> 15" "0 \<le> Bits base mod 8" "Bits base mod 8 \<le> 7"
      using b0 b by auto
    then show "length (As16 (Addr base)) = 16 \<and>
       0 \<le> go_quot (Bits base) 8 \<and> go_quot (Bits base) 8 \<le> 15 \<and>
       0 \<le> 7 - go_rem (Bits base) 8 \<and> 7 - go_rem (Bits base) 8 \<le> 7 \<and>
       setBit128 (As16 (Addr base)) (Bits base) \<noteq> None"
      by (simp add: q setBit128_def Let_def)
  qed
  have "\<exists>left right. splitPrefix base = Some (left, right) \<and>
       IsValid left \<and> IsValid right \<and>
       Bits left = Bits base + 1 \<and> Bits right = Bits base + 1 \<and>
       Bits base + 1 \<le> maxPrefixBits base"
    using s h(1-4) lt by auto
  then show ?thesis using b0 lt 4 6 by blast
qed

theorem splitPrefix_call_in_range_witness:
  "Overlaps (Masked (Prefix (Addr6 0x20010DB8000000000000000000000042) 32))
            (Masked (Prefix (Addr6 0x20010DB8000000000000000000000001) 128)) \<and>
   go_quot 32 8 = 4 \<and> 7 - go_rem 32 8 = 7 \<and>
   splitPrefix (Masked (Prefix (Addr6 0x20010DB8000000000000000000000042) 32)) =
     Some (Prefix (Addr6 0x20010DB8000000000000000000000000) 33,
           Prefix (Addr6 0x20010DB8800000000000000000000000) 33)"
proof -
  let ?b0 = "Prefix (Addr6 0x20010DB8000000000000000000000042) 32"
  let ?r0 = "Prefix (Addr6 0x20010DB8000000000000000000000001) 128"
  have mb: "Masked ?b0 = Prefix (Addr6 0x20010DB8000000000000000000000000) 32" by code_simp
  have mr: "Masked ?r0 = ?r0" by code_simp
  have o: "Overlaps (Masked ?b0) (Masked ?r0)" unfolding mb mr by code_simp
  have n: "\<not> (Contains (Masked ?r0) (Addr (Masked ?b0)) \<and> Bits (Masked ?r0) \<le> Bits (Masked ?b0))"
    unfolding mb mr by simp
  have m: "\<not> maxPrefixBits (Masked ?b0) \<le> Bits (Masked ?b0)"
    unfolding mb by (simp add: maxPrefixBits_def)
  have s: "splitPrefix (Masked ?b0) =
     Some (Prefix (Addr6 0x20010DB8000000000000000000000000) 33,
           Prefix (Addr6 0x20010DB8800000000000000000000000) 33)"
    unfolding mb by code_simp
  have "Bits (Masked ?b0) = 32" unfolding mb by simp
  then show ?thesis
    using splitPrefix_call_in_range[OF refl refl o n m] o s
    by (simp add: maxPrefixBits_def mb go_quot_def go_rem_def)
qed

section \<open>Arbitrary arguments and the list driver\<close>

lemma Overlaps_common:
  assumes "Overlaps p q" shows "\<exists>a. Contains p a \<and> Contains q a"
proof (cases "Bits p \<le> Bits q")
  case True
  then show ?thesis using Overlaps_Contains_Addr[OF assms] Contains_self[of q] assms
    by (auto simp: Overlaps_iff)
next
  case False
  then show ?thesis using Overlaps_Contains_Addr[of q p] Contains_self[of p] assms Overlaps_sym
    by (auto simp: Overlaps_iff)
qed

lemma Masked_zeroPrefix [simp]: "Masked zeroPrefix = zeroPrefix"
  by (simp add: Masked_invalid)

lemma subtractPrefix_Masked: "subtractPrefix b r = subtractPrefix (Masked b) (Masked r)"
  by (subst subtractPrefix.simps, subst (2) subtractPrefix.simps) (simp add: Masked_Masked)

lemma subtractPrefix_apart:
  "\<not> Overlaps (Masked b) (Masked r) \<Longrightarrow> subtractPrefix b r = Some [Masked b]"
  by (subst subtractPrefix.simps) (simp add: Let_def)

lemma Masked_fixed_cases: "Masked f = f \<longleftrightarrow> canonical f \<or> f = zeroPrefix"
  using canonical_Masked[of f] Masked_invalid[of f] by (cases "IsValid f") auto

text \<open>What one subtraction does to a fragment that is already masked.\<close>

lemma subtractPrefix_fragment:
  assumes m: "Masked f = f"
  shows "\<exists>fs. subtractPrefix f (Masked r) = Some fs \<and>
     (\<forall>f'\<in>set fs. Masked f' = f' \<and> (IsValid f' \<longleftrightarrow> IsValid f) \<and>
        (IsValid f' \<longrightarrow> Is4 (Addr f') = Is4 (Addr f)) \<and>
        \<not> Overlaps f' (Masked r) \<and> (\<forall>q. \<not> Overlaps f q \<longrightarrow> \<not> Overlaps f' q))"
proof (cases "Overlaps f (Masked r)")
  case False
  then have "subtractPrefix f (Masked r) = Some [f]"
    using subtractPrefix_apart[of f "Masked r"] m by (simp add: Masked_Masked)
  then show ?thesis using m False by simp
next
  case True
  then have v: "IsValid f" "IsValid (Masked r)" by (simp_all add: Overlaps_iff)
  then have c: "canonical f" "canonical (Masked r)"
    using m canonical_Masked[of f] canonical_Masked[of "Masked r"] by (simp_all add: Masked_Masked)
  from subtract_main[OF c] obtain fs where
    fs: "subtractPrefix f (Masked r) = Some fs" and ok: "fragmentsOK f (Masked r) fs" by blast
  have cov: "\<And>f' a. f' \<in> set fs \<Longrightarrow> Contains f' a \<Longrightarrow> Contains f a \<and> \<not> Contains (Masked r) a"
    using ok unfolding fragmentsOK_def by blast
  have "Masked f' = f' \<and> (IsValid f' \<longleftrightarrow> IsValid f) \<and>
        (IsValid f' \<longrightarrow> Is4 (Addr f') = Is4 (Addr f)) \<and>
        \<not> Overlaps f' (Masked r) \<and> (\<forall>q. \<not> Overlaps f q \<longrightarrow> \<not> Overlaps f' q)"
    if f': "f' \<in> set fs" for f'
  proof -
    have cf: "canonical f'" "BitLen (Addr f') = BitLen (Addr f)"
      using ok f' unfolding fragmentsOK_def by auto
    have 1: "\<not> Overlaps f' (Masked r)" using Overlaps_common[of f' "Masked r"] cov[OF f'] by blast
    have 2: "\<forall>q. \<not> Overlaps f q \<longrightarrow> \<not> Overlaps f' q"
      using Overlaps_common[of f'] cov[OF f'] Contains_both_Overlaps[of f] by blast
    show ?thesis using cf v 1 2 by (simp add: canonical_Masked Is4_BitLen)
  qed
  then show ?thesis using fs by blast
qed

lemma settled_stable: "settled b removes f \<Longrightarrow> stable f removes"
  unfolding settled_def stable_def by (cases "IsValid f") (auto simp: Overlaps_iff)

lemma settled_Masked: "settled b [] (Masked b)"
  unfolding settled_def
  by (cases "IsValid b") (simp_all add: Masked_Masked Masked_valid Masked_invalid)

lemma subtractFragments_props:
  assumes "\<forall>f\<in>set frs. Masked f = f"
  shows "\<exists>nf. subtractFragments frs r = Some nf \<and>
     (\<forall>f'\<in>set nf. \<exists>f\<in>set frs. Masked f' = f' \<and> (IsValid f' \<longleftrightarrow> IsValid f) \<and>
        (IsValid f' \<longrightarrow> Is4 (Addr f') = Is4 (Addr f)) \<and>
        \<not> Overlaps f' (Masked r) \<and> (\<forall>q. \<not> Overlaps f q \<longrightarrow> \<not> Overlaps f' q))"
  using assms
proof (induction frs)
  case Nil
  then show ?case by simp
next
  case (Cons f frs)
  from subtractPrefix_fragment[of f r] Cons.prems obtain fs where
    fs: "subtractPrefix f (Masked r) = Some fs" and
    p: "\<forall>f'\<in>set fs. Masked f' = f' \<and> (IsValid f' \<longleftrightarrow> IsValid f) \<and>
        (IsValid f' \<longrightarrow> Is4 (Addr f') = Is4 (Addr f)) \<and>
        \<not> Overlaps f' (Masked r) \<and> (\<forall>q. \<not> Overlaps f q \<longrightarrow> \<not> Overlaps f' q)"
    by auto
  from Cons.IH Cons.prems obtain nf where
    nf: "subtractFragments frs r = Some nf" and
    q: "\<forall>f'\<in>set nf. \<exists>f\<in>set frs. Masked f' = f' \<and> (IsValid f' \<longleftrightarrow> IsValid f) \<and>
        (IsValid f' \<longrightarrow> Is4 (Addr f') = Is4 (Addr f)) \<and>
        \<not> Overlaps f' (Masked r) \<and> (\<forall>q. \<not> Overlaps f q \<longrightarrow> \<not> Overlaps f' q)"
    by auto
  have "subtractFragments (f # frs) r = Some (fs @ nf)" using fs nf by simp
  moreover have "\<forall>f'\<in>set (fs @ nf). \<exists>g\<in>set (f # frs). Masked f' = f' \<and> (IsValid f' \<longleftrightarrow> IsValid g) \<and>
        (IsValid f' \<longrightarrow> Is4 (Addr f') = Is4 (Addr g)) \<and>
        \<not> Overlaps f' (Masked r) \<and> (\<forall>q. \<not> Overlaps g q \<longrightarrow> \<not> Overlaps f' q)"
  proof
    fix f' assume "f' \<in> set (fs @ nf)"
    then consider "f' \<in> set fs" | "f' \<in> set nf" by auto
    then show "\<exists>g\<in>set (f # frs). Masked f' = f' \<and> (IsValid f' \<longleftrightarrow> IsValid g) \<and>
        (IsValid f' \<longrightarrow> Is4 (Addr f') = Is4 (Addr g)) \<and>
        \<not> Overlaps f' (Masked r) \<and> (\<forall>q. \<not> Overlaps g q \<longrightarrow> \<not> Overlaps f' q)"
    proof cases
      case 1
      then show ?thesis using p by (intro bexI[of _ f]) auto
    next
      case 2
      then obtain g where "g \<in> set frs" "Masked f' = f' \<and> (IsValid f' \<longleftrightarrow> IsValid g) \<and>
        (IsValid f' \<longrightarrow> Is4 (Addr f') = Is4 (Addr g)) \<and>
        \<not> Overlaps f' (Masked r) \<and> (\<forall>q. \<not> Overlaps g q \<longrightarrow> \<not> Overlaps f' q)"
        using q by blast
      then show ?thesis by (intro bexI[of _ g]) auto
    qed
  qed
  ultimately show ?case by blast
qed

lemma subtractFragments_apart:
  assumes "\<forall>f\<in>set frs. Masked f = f \<and> \<not> Overlaps f (Masked r)"
  shows "subtractFragments frs r = Some frs"
  using assms
proof (induction frs)
  case Nil
  then show ?case by simp
next
  case (Cons f frs)
  then have "subtractPrefix f (Masked r) = Some [f]"
    using subtractPrefix_apart[of f "Masked r"] by (simp add: Masked_Masked)
  then show ?case using Cons by simp
qed

lemma subtractFragments_settled:
  assumes "\<forall>f\<in>set frs. settled b done f" "Is4 (Addr b) = Is4 (Addr r)"
  shows "\<exists>nf. subtractFragments frs r = Some nf \<and> (\<forall>f\<in>set nf. settled b (done @ [r]) f)"
proof -
  have "\<forall>f\<in>set frs. Masked f = f" using assms(1) by (simp add: settled_def)
  from subtractFragments_props[OF this, of r] obtain nf where
    nf: "subtractFragments frs r = Some nf" and
    q: "\<forall>f'\<in>set nf. \<exists>f\<in>set frs. Masked f' = f' \<and> (IsValid f' \<longleftrightarrow> IsValid f) \<and>
        (IsValid f' \<longrightarrow> Is4 (Addr f') = Is4 (Addr f)) \<and>
        \<not> Overlaps f' (Masked r) \<and> (\<forall>q. \<not> Overlaps f q \<longrightarrow> \<not> Overlaps f' q)"
    by blast
  have "settled b (done @ [r]) f'" if "f' \<in> set nf" for f'
  proof -
    from q that obtain f where f: "f \<in> set frs" and
      p: "Masked f' = f'" "IsValid f' \<longleftrightarrow> IsValid f" "IsValid f' \<longrightarrow> Is4 (Addr f') = Is4 (Addr f)"
        "\<not> Overlaps f' (Masked r)" "\<forall>q. \<not> Overlaps f q \<longrightarrow> \<not> Overlaps f' q"
      by blast
    have s: "settled b done f" using assms(1) f by simp
    show ?thesis using p s unfolding settled_def by auto
  qed
  then show ?thesis using nf by blast
qed

lemma subtractRemoves_settled:
  assumes "\<forall>f\<in>set frs. settled b done f"
  shows "\<exists>out. subtractRemoves b frs rest = Some out \<and> (\<forall>f\<in>set out. settled b (done @ rest) f)"
  using assms
proof (induction rest arbitrary: frs "done")
  case Nil
  then show ?case by simp
next
  case (Cons r rest)
  show ?case
  proof (cases "Is4 (Addr b) = Is4 (Addr r)")
    case False
    then have "\<forall>f\<in>set frs. settled b (done @ [r]) f"
      using Cons.prems by (auto simp: settled_def)
    from Cons.IH[OF this] False show ?thesis by simp
  next
    case True
    from subtractFragments_settled[OF Cons.prems True] obtain nf where
      nf: "subtractFragments frs r = Some nf" "\<forall>f\<in>set nf. settled b (done @ [r]) f" by blast
    from Cons.IH[OF nf(2)] True nf(1) show ?thesis by simp
  qed
qed

lemma subtractRemoves_stable:
  assumes "stable f removes"
  shows "subtractRemoves f [f] removes = Some [f]"
  using assms
proof (induction removes)
  case Nil
  then show ?case by simp
next
  case (Cons r removes)
  then have s: "stable f removes" by (simp add: stable_def)
  show ?case
  proof (cases "Overlaps f (Masked r)")
    case False
    then have "subtractFragments [f] r = Some [f]"
      using Cons.prems subtractFragments_apart[of "[f]" r] by (simp add: stable_def)
    then show ?thesis using Cons.IH[OF s] by simp
  next
    case True
    then have "Is4 (Addr f) \<noteq> Is4 (Addr r)" using Cons.prems by (auto simp: stable_def)
    then show ?thesis using Cons.IH[OF s] by simp
  qed
qed

lemma subtractPrefixList_stable:
  assumes "\<forall>f\<in>set fs. stable f removes"
  shows "subtractPrefixList fs removes = Some fs"
  using assms
proof (induction fs)
  case Nil
  then show ?case by simp
next
  case (Cons f fs)
  then have "stable f removes" by simp
  then have "subtractRemoves f [Masked f] removes = Some [f]"
    using subtractRemoves_stable[of f removes] by (simp add: stable_def)
  then show ?case using Cons by simp
qed

lemma subtractPrefixList_settled:
  "\<exists>out. subtractPrefixList bases removes = Some out \<and>
     (\<forall>f\<in>set out. \<exists>b\<in>set bases. settled b removes f)"
proof (induction bases)
  case Nil
  then show ?case by simp
next
  case (Cons b bases)
  have "\<forall>f\<in>set [Masked b]. settled b [] f" using settled_Masked by simp
  from subtractRemoves_settled[OF this, of removes] obtain fr where
    fr: "subtractRemoves b [Masked b] removes = Some fr" "\<forall>f\<in>set fr. settled b removes f"
    by auto
  from Cons.IH obtain out where
    out: "subtractPrefixList bases removes = Some out"
      "\<forall>f\<in>set out. \<exists>b\<in>set bases. settled b removes f" by blast
  have "subtractPrefixList (b # bases) removes = Some (fr @ out)" using fr(1) out(1) by simp
  moreover have "\<forall>f\<in>set (fr @ out). \<exists>b'\<in>set (b # bases). settled b' removes f"
    using fr(2) out(2) by auto
  ultimately show ?case by blast
qed

text \<open>
  C5: \<open>subtractPrefixList\<close> is idempotent in its exclusion list: for all lists of bases
  and of exclusions it returns a list, and applying the same exclusions to that list returns
  the same list again.
\<close>

theorem subtractPrefixList_idempotent:
  "\<exists>out. subtractPrefixList bases removes = Some out \<and>
         subtractPrefixList out removes = Some out"
proof -
  from subtractPrefixList_settled[of bases removes] obtain out where
    out: "subtractPrefixList bases removes = Some out"
      "\<forall>f\<in>set out. \<exists>b\<in>set bases. settled b removes f" by blast
  then have "\<forall>f\<in>set out. stable f removes" using settled_stable by blast
  then show ?thesis using out(1) subtractPrefixList_stable by blast
qed

theorem subtractPrefixList_idempotent_witness:
  "subtractPrefixList [Prefix (Addr4 0x0A000007) 24, Prefix (Addr6 0) 127]
     [Prefix (Addr4 0x0A000080) 25, Prefix (Addr6 1) 128, Prefix (Addr4 0x0A000000) 26]
     = Some [Prefix (Addr4 0x0A000040) 26, Prefix (Addr6 0) 128] \<and>
   subtractPrefixList [Prefix (Addr4 0x0A000040) 26, Prefix (Addr6 0) 128]
     [Prefix (Addr4 0x0A000080) 25, Prefix (Addr6 1) 128, Prefix (Addr4 0x0A000000) 26]
     = Some [Prefix (Addr4 0x0A000040) 26, Prefix (Addr6 0) 128]"
proof -
  have e: "subtractPrefixList [Prefix (Addr4 0x0A000007) 24, Prefix (Addr6 0) 127]
     [Prefix (Addr4 0x0A000080) 25, Prefix (Addr6 1) 128, Prefix (Addr4 0x0A000000) 26]
     = Some [Prefix (Addr4 0x0A000040) 26, Prefix (Addr6 0) 128]"
    by code_simp
  show ?thesis
    using subtractPrefixList_idempotent[of "[Prefix (Addr4 0x0A000007) 24, Prefix (Addr6 0) 127]"
      "[Prefix (Addr4 0x0A000080) 25, Prefix (Addr6 1) 128, Prefix (Addr4 0x0A000000) 26]"]
    unfolding e by simp
qed

lemma subtractFragments_Masked: "subtractFragments frs (Masked r) = subtractFragments frs r"
  by (induction frs) (simp_all add: Masked_Masked split: option.splits)

lemma IsValid_Masked_iff: "IsValid (Masked p) \<longleftrightarrow> IsValid p"
  by (cases "IsValid p") (simp_all add: Masked_valid Masked_invalid)

lemma subtractRemoves_Masked:
  assumes "\<forall>f\<in>set frs. Masked f = f \<and> (IsValid f \<longrightarrow> IsValid b)"
  shows "subtractRemoves (Masked b) frs (map Masked removes) = subtractRemoves b frs removes"
  using assms
proof (induction removes arbitrary: frs)
  case Nil
  then show ?case by simp
next
  case (Cons r removes)
  have m: "\<forall>f\<in>set frs. Masked f = f" using Cons.prems by simp
  show ?case
  proof (cases "IsValid b \<and> IsValid r")
    case True
    then have t: "Is4 (Addr (Masked b)) = Is4 (Addr b)" "Is4 (Addr (Masked r)) = Is4 (Addr r)"
      by (simp_all add: Masked_valid)
    from subtractFragments_props[OF m, of r] obtain nf where
      nf: "subtractFragments frs r = Some nf" and
      q: "\<forall>f'\<in>set nf. \<exists>f\<in>set frs. Masked f' = f' \<and> (IsValid f' \<longleftrightarrow> IsValid f) \<and>
        (IsValid f' \<longrightarrow> Is4 (Addr f') = Is4 (Addr f)) \<and>
        \<not> Overlaps f' (Masked r) \<and> (\<forall>q. \<not> Overlaps f q \<longrightarrow> \<not> Overlaps f' q)"
      by blast
    have "\<forall>f\<in>set nf. Masked f = f \<and> (IsValid f \<longrightarrow> IsValid b)" using q True by blast
    from Cons.IH[OF this] Cons.IH[OF Cons.prems] show ?thesis
      by (simp add: t nf subtractFragments_Masked)
  next
    case False
    have "\<forall>f\<in>set frs. Masked f = f \<and> \<not> Overlaps f (Masked r)"
      using False Cons.prems by (auto simp: Overlaps_iff IsValid_Masked_iff)
    then have "subtractFragments frs r = Some frs" by (rule subtractFragments_apart)
    then show ?thesis using Cons.IH[OF Cons.prems] by (simp add: subtractFragments_Masked)
  qed
qed

lemma subtractPrefixList_Masked:
  "subtractPrefixList (map Masked bases) (map Masked removes) = subtractPrefixList bases removes"
proof (induction bases)
  case Nil
  then show ?case by simp
next
  case (Cons b bases)
  have "subtractRemoves (Masked b) [Masked b] (map Masked removes) = subtractRemoves b [Masked b] removes"
    by (rule subtractRemoves_Masked) (simp add: Masked_Masked IsValid_Masked_iff)
  then show ?case using Cons by (simp add: Masked_Masked split: option.splits)
qed

text \<open>
  C7: every prefix returned by \<open>subtractPrefix\<close> and by \<open>subtractPrefixList\<close> is in
  masked form (\<open>Masked\<close> leaves it unchanged), and it is canonical (valid, with all address
  bits beyond its length zero) when the bases are valid prefixes. Both operations mask their
  arguments before use: their result on any arguments equals their result on the masked
  arguments.
\<close>

theorem results_canonical:
  "(\<exists>fs. subtractPrefix base remove = Some fs \<and>
      (\<forall>f\<in>set fs. Masked f = f \<and> (IsValid base \<longrightarrow> canonical f))) \<and>
   subtractPrefix base remove = subtractPrefix (Masked base) (Masked remove) \<and>
   (\<exists>out. subtractPrefixList bases removes = Some out \<and>
      (\<forall>f\<in>set out. Masked f = f \<and> ((\<forall>b\<in>set bases. IsValid b) \<longrightarrow> canonical f))) \<and>
   subtractPrefixList bases removes = subtractPrefixList (map Masked bases) (map Masked removes)"
proof (intro conjI)
  from subtractPrefix_fragment[of "Masked base" remove] obtain fs where
    fs: "subtractPrefix (Masked base) (Masked remove) = Some fs" and
    p: "\<forall>f'\<in>set fs. Masked f' = f' \<and> (IsValid f' \<longleftrightarrow> IsValid (Masked base))"
    by (auto simp: Masked_Masked)
  have "\<forall>f\<in>set fs. Masked f = f \<and> (IsValid base \<longrightarrow> canonical f)"
    using p by (auto simp: canonical_Masked IsValid_Masked_iff)
  then show "\<exists>fs. subtractPrefix base remove = Some fs \<and>
      (\<forall>f\<in>set fs. Masked f = f \<and> (IsValid base \<longrightarrow> canonical f))"
    using fs subtractPrefix_Masked[of base remove] by simp
  show "subtractPrefix base remove = subtractPrefix (Masked base) (Masked remove)"
    by (rule subtractPrefix_Masked)
  from subtractPrefixList_settled[of bases removes] obtain out where
    out: "subtractPrefixList bases removes = Some out"
      "\<forall>f\<in>set out. \<exists>b\<in>set bases. settled b removes f" by blast
  have "\<forall>f\<in>set out. Masked f = f \<and> ((\<forall>b\<in>set bases. IsValid b) \<longrightarrow> canonical f)"
    using out(2) unfolding settled_def canonical_Masked by blast
  then show "\<exists>out. subtractPrefixList bases removes = Some out \<and>
      (\<forall>f\<in>set out. Masked f = f \<and> ((\<forall>b\<in>set bases. IsValid b) \<longrightarrow> canonical f))"
    using out(1) by blast
  show "subtractPrefixList bases removes = subtractPrefixList (map Masked bases) (map Masked removes)"
    by (simp add: subtractPrefixList_Masked)
qed

theorem results_canonical_witness:
  "IsValid (Prefix (Addr4 0x0A000007) 24) \<and>
   subtractPrefix (Prefix (Addr4 0x0A000007) 24) (Prefix (Addr4 0x0A0000FF) 25)
     = Some [Prefix (Addr4 0x0A000000) 25] \<and>
   subtractPrefix (Masked (Prefix (Addr4 0x0A000007) 24)) (Masked (Prefix (Addr4 0x0A0000FF) 25))
     = Some [Prefix (Addr4 0x0A000000) 25] \<and>
   canonical (Prefix (Addr4 0x0A000000) 25) \<and>
   subtractPrefixList [Prefix (Addr4 0x0A000007) 24] [Prefix (Addr4 0x0A0000FF) 25]
     = Some [Prefix (Addr4 0x0A000000) 25] \<and>
   subtractPrefixList (map Masked [Prefix (Addr4 0x0A000007) 24]) (map Masked [Prefix (Addr4 0x0A0000FF) 25])
     = Some [Prefix (Addr4 0x0A000000) 25]"
proof -
  let ?b = "Prefix (Addr4 0x0A000007) 24" and ?r = "Prefix (Addr4 0x0A0000FF) 25"
  let ?x = "Prefix (Addr4 0x0A000000) 25"
  note t = results_canonical[of ?b ?r "[?b]" "[?r]"]
  have v: "IsValid ?b" by (simp add: IsValid_def)
  have e: "subtractPrefix ?b ?r = Some [?x]" by code_simp
  have l: "subtractPrefixList [?b] [?r] = Some [?x]" by code_simp
  from t obtain fs where a: "subtractPrefix ?b ?r = Some fs"
    and b: "\<forall>f\<in>set fs. Masked f = f \<and> (IsValid ?b \<longrightarrow> canonical f)" by blast
  have "fs = [?x]" using a unfolding e by simp
  then have c: "canonical ?x" using b v by simp
  from t have "subtractPrefix ?b ?r = subtractPrefix (Masked ?b) (Masked ?r)" by blast
  then have e': "subtractPrefix (Masked ?b) (Masked ?r) = Some [?x]" unfolding e by (rule sym)
  from t have "subtractPrefixList [?b] [?r] = subtractPrefixList (map Masked [?b]) (map Masked [?r])"
    by blast
  then have l': "subtractPrefixList (map Masked [?b]) (map Masked [?r]) = Some [?x]"
    unfolding l by (rule sym)
  show ?thesis using v e e' c l l' by (intro conjI)
qed

lemma subtractRemoves_filter:
  "subtractRemoves b frs (filter (\<lambda>r. Is4 (Addr r) = Is4 (Addr b)) removes) = subtractRemoves b frs removes"
  by (induction removes arbitrary: frs) (auto split: option.splits)

text \<open>
  C6: exclusions of the other family never affect a base. The fragments that
  \<open>subtractPrefixList\<close> computes for a base \<open>b\<close> are the same when the exclusions whose
  family differs from that of \<open>b\<close> are removed from the list, and the result of
  \<open>subtractPrefixList\<close> is the concatenation, base by base, of the fragments computed
  from the exclusions of the family of that base only.
\<close>

theorem family_isolation:
  "subtractRemoves b [Masked b] removes =
     subtractRemoves b [Masked b] (filter (\<lambda>r. Is4 (Addr r) = Is4 (Addr b)) removes) \<and>
   subtractPrefixList bases removes =
     map_option concat (those (map (\<lambda>b. subtractRemoves b [Masked b]
        (filter (\<lambda>r. Is4 (Addr r) = Is4 (Addr b)) removes)) bases))"
proof
  show "subtractRemoves b [Masked b] removes =
     subtractRemoves b [Masked b] (filter (\<lambda>r. Is4 (Addr r) = Is4 (Addr b)) removes)"
    by (simp add: subtractRemoves_filter)
  show "subtractPrefixList bases removes =
     map_option concat (those (map (\<lambda>b. subtractRemoves b [Masked b]
        (filter (\<lambda>r. Is4 (Addr r) = Is4 (Addr b)) removes)) bases))"
    by (induction bases) (auto simp: subtractRemoves_filter split: option.splits)
qed

theorem family_isolation_witness:
  "subtractRemoves (Prefix (Addr4 0x0A000000) 24) [Masked (Prefix (Addr4 0x0A000000) 24)]
     [Prefix (Addr6 0x0A000000) 128, Prefix (Addr4 0x0A000080) 25]
     = Some [Prefix (Addr4 0x0A000000) 25] \<and>
   subtractRemoves (Prefix (Addr4 0x0A000000) 24) [Masked (Prefix (Addr4 0x0A000000) 24)]
     [Prefix (Addr4 0x0A000080) 25]
     = Some [Prefix (Addr4 0x0A000000) 25]"
proof -
  let ?b = "Prefix (Addr4 0x0A000000) 24"
  let ?rs = "[Prefix (Addr6 0x0A000000) 128, Prefix (Addr4 0x0A000080) 25]"
  have f: "filter (\<lambda>r. Is4 (Addr r) = Is4 (Addr ?b)) ?rs = [Prefix (Addr4 0x0A000080) 25]"
    by simp
  have e: "subtractRemoves ?b [Masked ?b] [Prefix (Addr4 0x0A000080) 25] = Some [Prefix (Addr4 0x0A000000) 25]"
    by code_simp
  have "subtractRemoves ?b [Masked ?b] ?rs =
     subtractRemoves ?b [Masked ?b] (filter (\<lambda>r. Is4 (Addr r) = Is4 (Addr ?b)) ?rs)"
    using family_isolation[of ?b ?rs "[]"] by (rule conjunct1)
  then have "subtractRemoves ?b [Masked ?b] ?rs = Some [Prefix (Addr4 0x0A000000) 25]"
    by (simp only: f e)
  then show ?thesis using e by (rule conjI)
qed

section \<open>Parsing the exclusions\<close>








end
